theory Spec2Isabelle
  imports Complex_Main
begin

section \<open>Text primitives\<close>

text \<open>
  The generator works on Python \<open>str\<close> values.  They are modelled as \<open>string\<close>, one
  \<open>char\<close> per code point, which covers the code points below 256.  \<open>is_space\<close> is the
  whitespace class shared by \<open>str.strip()\<close> and the regular-expression class \<open>\s\<close> on
  that range.
\<close>

abbreviation NL :: char where "NL \<equiv> CHR 0x0A"
abbreviation CR :: char where "CR \<equiv> CHR 0x0D"

definition is_space :: "char \<Rightarrow> bool" where
  "is_space c = (c \<in> set [CHR 0x09, CHR 0x0A, CHR 0x0B, CHR 0x0C, CHR 0x0D,
                           CHR 0x1C, CHR 0x1D, CHR 0x1E, CHR 0x1F, CHR 0x20,
                           CHR 0x85, CHR 0xA0])"

text \<open>\<open>str.strip()\<close>: whitespace is removed from both ends.\<close>

definition strip :: "string \<Rightarrow> string" where
  "strip s = rev (dropWhile is_space (rev (dropWhile is_space s)))"

section \<open>Regular-expression substitution\<close>

text \<open>
  A matcher tries its pattern at the start of a string and returns the replacement text
  together with the input that follows the match.  \<open>re_sub\<close> is \<open>re.sub\<close> for patterns
  that cannot match the empty string: it scans from the left, replaces a match and goes
  on after it, and otherwise copies one character and tries at the next position.
  Every matcher below consumes at least one character; the test on the lengths states
  this for an arbitrary matcher and makes the recursion well-founded.
\<close>

type_synonym matcher = "string \<Rightarrow> (string \<times> string) option"

function re_sub :: "matcher \<Rightarrow> string \<Rightarrow> string" where
  "re_sub m [] = []"
| "re_sub m (c # cs) =
     (case m (c # cs) of
        None \<Rightarrow> c # re_sub m cs
      | Some (rep, rest) \<Rightarrow>
          if length rest \<le> length cs then rep @ re_sub m rest else c # re_sub m cs)"
  by pat_completeness auto
termination
  by (relation "measure (\<lambda>(m, s). length s)") auto

text \<open>A literal at the start of the input; the result is the input after it.\<close>

fun lit :: "string \<Rightarrow> string \<Rightarrow> string option" where
  "lit [] s = Some s"
| "lit (p # ps) [] = None"
| "lit (p # ps) (c # cs) = (if p = c then lit ps cs else None)"

text \<open>An alternation of literals, tried in the order written.\<close>

fun lit_alt :: "string list \<Rightarrow> string \<Rightarrow> string option" where
  "lit_alt [] s = None"
| "lit_alt (p # ps) s = (case lit p s of Some r \<Rightarrow> Some r | None \<Rightarrow> lit_alt ps s)"

text \<open>
  The lazy group \<open>(.*?)\<close> followed by a closing literal: the group ends at the first
  position where a closing literal matches.  Without \<open>re.DOTALL\<close> the dot does not
  match a newline, so the group cannot extend over one.
\<close>

fun lazy_until :: "bool \<Rightarrow> string list \<Rightarrow> string \<Rightarrow> (string \<times> string) option" where
  "lazy_until dotall ends [] = (case lit_alt ends [] of None \<Rightarrow> None | Some r \<Rightarrow> Some ([], r))"
| "lazy_until dotall ends (c # cs) =
     (case lit_alt ends (c # cs) of
        Some r \<Rightarrow> Some ([], r)
      | None \<Rightarrow>
          if \<not> dotall \<and> c = NL then None
          else (case lazy_until dotall ends cs of
                  None \<Rightarrow> None
                | Some (g, r) \<Rightarrow> Some (c # g, r)))"

text \<open>\<open>[^>]*>\<close>: everything up to the first \<open>>\<close>, which must exist.\<close>

fun upto_gt :: "string \<Rightarrow> (string \<times> string) option" where
  "upto_gt [] = None"
| "upto_gt (c # cs) =
     (if c = CHR ''>'' then Some ([], cs)
      else (case upto_gt cs of None \<Rightarrow> None | Some (g, r) \<Rightarrow> Some (c # g, r)))"

text \<open>\<open><[^>]+>\<close> replaced by the empty string.\<close>

definition m_tag :: matcher where
  "m_tag s =
     (case lit ''<'' s of
        None \<Rightarrow> None
      | Some r1 \<Rightarrow>
          (case upto_gt r1 of
             None \<Rightarrow> None
           | Some (g, r2) \<Rightarrow> if g = [] then None else Some ([], r2)))"

text \<open>\<open><tt[^>]*>(.*?)</tt>\<close> with \<open>re.DOTALL\<close>, replaced by \<open>_replace_tt\<close>.\<close>

definition replace_tt :: "string \<Rightarrow> string" where
  "replace_tt g = ''``'' @ re_sub m_tag g @ ''``''"

definition m_tt :: matcher where
  "m_tt s =
     (case lit ''<tt'' s of
        None \<Rightarrow> None
      | Some r1 \<Rightarrow>
          (case upto_gt r1 of
             None \<Rightarrow> None
           | Some (a, r2) \<Rightarrow>
               (case lazy_until True [''</tt>''] r2 of
                  None \<Rightarrow> None
                | Some (g, r3) \<Rightarrow> Some (replace_tt g, r3))))"

text \<open>
  The patterns of the shape \<open>open(.*?)close\<close>: \<open>opens\<close> and \<open>closes\<close> are the
  alternatives of the opening and of the closing tag, \<open>repl\<close> builds the replacement
  from the group.
\<close>

definition m_pair :: "string list \<Rightarrow> bool \<Rightarrow> string list \<Rightarrow> (string \<Rightarrow> string) \<Rightarrow> matcher" where
  "m_pair opens dotall closes repl s =
     (case lit_alt opens s of
        None \<Rightarrow> None
      | Some r1 \<Rightarrow>
          (case lazy_until dotall closes r1 of
             None \<Rightarrow> None
           | Some (g, r2) \<Rightarrow> Some (repl g, r2)))"

text \<open>\<open><ul[^>]*>\<close> replaced by a newline.\<close>

definition m_ul :: matcher where
  "m_ul s =
     (case lit ''<ul'' s of
        None \<Rightarrow> None
      | Some r1 \<Rightarrow> (case upto_gt r1 of None \<Rightarrow> None | Some (a, r2) \<Rightarrow> Some ([NL], r2)))"

text \<open>A literal pattern, as in \<open>str.replace(old, new)\<close> and \<open>re.sub(r"</ul>", ...)\<close>.\<close>

definition m_lit :: "string \<Rightarrow> string \<Rightarrow> matcher" where
  "m_lit old new s = (case lit old s of None \<Rightarrow> None | Some r \<Rightarrow> Some (new, r))"

definition replace :: "string \<Rightarrow> string \<Rightarrow> string \<Rightarrow> string" where
  "replace old new s = re_sub (m_lit old new) s"

text \<open>\<open>\n{3,}\<close>, greedy, replaced by two newlines.\<close>

definition m_nl3 :: matcher where
  "m_nl3 s =
     (case lit [NL, NL, NL] s of
        None \<Rightarrow> None
      | Some r \<Rightarrow> Some ([NL, NL], dropWhile (\<lambda>c. c = NL) r))"

section \<open>HTML to RST\<close>

definition html_to_rst :: "string \<Rightarrow> string" where
  "html_to_rst html =
     (if html = [] then []
      else
        let text = re_sub m_tt html;
            text = re_sub (m_pair [''<p>''] True [''</p>''] (\<lambda>g. g @ [NL, NL])) text;
            text = re_sub (m_pair [''<b>'', ''<strong>''] False [''</b>'', ''</strong>'']
                             (\<lambda>g. ''**'' @ g @ ''**'')) text;
            text = re_sub (m_pair [''<em>'', ''<i>''] False [''</em>'', ''</i>'']
                             (\<lambda>g. ''*'' @ g @ ''*'')) text;
            text = re_sub m_ul text;
            text = re_sub (m_lit ''</ul>'' [NL]) text;
            text = re_sub (m_pair [''<li>''] True [''</li>''] (\<lambda>g. [NL] @ ''- '' @ g)) text;
            text = re_sub m_tag text;
            text = replace ''&lt;'' ''<'' text;
            text = replace ''&gt;'' ''>'' text;
            text = replace ''&amp;'' ''&'' text;
            text = replace ''&quot;'' [CHR 0x22] text;
            text = replace ''&#39;'' [CHR 0x27] text;
            text = replace ''&nbsp;'' '' '' text;
            text = re_sub m_nl3 text
        in strip text)"

section \<open>Signature cleaning\<close>

text \<open>\<open>_PRAGMA_RE\<close>: \<open>\s*\{\..*?\.\}\<close> with \<open>re.DOTALL\<close>, replaced by the empty string.\<close>

definition m_pragma :: matcher where
  "m_pragma s =
     (case lit ''{.'' (dropWhile is_space s) of
        None \<Rightarrow> None
      | Some r1 \<Rightarrow>
          (case lazy_until True [''.}''] r1 of
             None \<Rightarrow> None
           | Some (g, r2) \<Rightarrow> Some ([], r2)))"

definition clean_code :: "string \<Rightarrow> string" where
  "clean_code code = strip (re_sub m_pragma code)"

section \<open>Decimal numbers, lines\<close>

text \<open>The decimal rendering of a natural number, as an f-string writes it.\<close>

definition digit :: "nat \<Rightarrow> char" where
  "digit d = char_of (48 + d)"

function str_nat :: "nat \<Rightarrow> string" where
  "str_nat n = (if n < 10 then [digit n] else str_nat (n div 10) @ [digit (n mod 10)])"
  by pat_completeness auto
termination
  by (relation "measure id") auto

declare str_nat.simps [simp del]

text \<open>\<open>sep.join(lines)\<close>.\<close>

fun join :: "string \<Rightarrow> string list \<Rightarrow> string" where
  "join sep [] = []"
| "join sep [x] = x"
| "join sep (x # y # ys) = x @ sep @ join sep (y # ys)"

text \<open>
  \<open>str.splitlines()\<close>: a line ends at a line boundary; \<open>\r\n\<close> is one boundary; a
  boundary at the very end opens no further line.
\<close>

definition is_linebreak :: "char \<Rightarrow> bool" where
  "is_linebreak c = (c \<in> set [CHR 0x0A, CHR 0x0B, CHR 0x0C, CHR 0x0D,
                               CHR 0x1C, CHR 0x1D, CHR 0x1E, CHR 0x85])"

fun splitlines_aux :: "bool \<Rightarrow> string \<Rightarrow> string \<Rightarrow> string list" where
  "splitlines_aux after_cr cur [] = (if cur = [] then [] else [cur])"
| "splitlines_aux after_cr cur (c # cs) =
     (if after_cr \<and> c = NL then splitlines_aux False cur cs
      else if is_linebreak c then cur # splitlines_aux (c = CR) [] cs
      else splitlines_aux False (cur @ [c]) cs)"

definition splitlines :: "string \<Rightarrow> string list" where
  "splitlines s = splitlines_aux False [] s"

section \<open>JSON values and Python errors\<close>

text \<open>
  What \<open>json.loads\<close> returns: \<open>None\<close>, a bool, a number, a \<open>str\<close>, a list or a dict
  (its items in order, keys distinct).  The generator only ever tests a number for being
  zero.
\<close>

datatype json =
    JNull
  | JBool bool
  | JNum rat
  | JStr string
  | JArr "json list"
  | JObj "(string \<times> json) list"

datatype error =
    AttributeError
  | KeyError
  | TypeError
  | JSONDecodeError
  | UnicodeDecodeError
  | FileNotFoundError
  | PermissionError

text \<open>\<open>FileNotFoundError\<close> and \<open>PermissionError\<close> are subclasses of \<open>OSError\<close>.\<close>

definition is_OSError :: "error \<Rightarrow> bool" where
  "is_OSError e = (e = FileNotFoundError \<or> e = PermissionError)"

fun truthy :: "json \<Rightarrow> bool" where
  "truthy JNull = False"
| "truthy (JBool b) = b"
| "truthy (JNum q) = (q \<noteq> 0)"
| "truthy (JStr s) = (s \<noteq> [])"
| "truthy (JArr xs) = (xs \<noteq> [])"
| "truthy (JObj kvs) = (kvs \<noteq> [])"

text \<open>\<open>obj.get(key, default)\<close>: only a dict has the method.\<close>

fun py_get :: "json \<Rightarrow> string \<Rightarrow> json \<Rightarrow> error + json" where
  "py_get (JObj kvs) key dflt = Inr (case map_of kvs key of None \<Rightarrow> dflt | Some v \<Rightarrow> v)"
| "py_get obj key dflt = Inl AttributeError"

text \<open>\<open>obj[key]\<close> with a string key.\<close>

fun py_item :: "json \<Rightarrow> string \<Rightarrow> error + json" where
  "py_item (JObj kvs) key = (case map_of kvs key of None \<Rightarrow> Inl KeyError | Some v \<Rightarrow> Inr v)"
| "py_item obj key = Inl TypeError"

text \<open>The items a \<open>for\<close> loop visits: a dict yields its keys, a string its characters.\<close>

fun py_iter :: "json \<Rightarrow> error + json list" where
  "py_iter (JArr xs) = Inr xs"
| "py_iter (JObj kvs) = Inr (map (\<lambda>kv. JStr (fst kv)) kvs)"
| "py_iter (JStr s) = Inr (map (\<lambda>c. JStr [c]) s)"
| "py_iter v = Inl TypeError"

text \<open>
  The two helpers called on a JSON value.  \<open>_html_to_rst\<close> returns \<open>""\<close> for every
  falsy argument before it touches it; \<open>re.sub\<close> raises \<open>TypeError\<close> on anything that
  is not a string.
\<close>

fun html_to_rst_of :: "json \<Rightarrow> error + string" where
  "html_to_rst_of (JStr s) = Inr (html_to_rst s)"
| "html_to_rst_of v = (if truthy v then Inl TypeError else Inr [])"

fun clean_code_of :: "json \<Rightarrow> error + string" where
  "clean_code_of (JStr s) = Inr (clean_code s)"
| "clean_code_of v = Inl TypeError"

section \<open>Page assembly\<close>

definition KIND_ORDER :: "string list" where
  "KIND_ORDER = [''skType'', ''skConst'', ''skProc'', ''skFunc'', ''skMethod'',
                 ''skIterator'', ''skTemplate'', ''skMacro'', ''skLet'', ''skVar'']"

definition KIND_LABELS :: "(string \<times> string) list" where
  "KIND_LABELS = [(''skType'', ''Types''), (''skConst'', ''Constants''),
                  (''skProc'', ''Procedures''), (''skFunc'', ''Functions''),
                  (''skMethod'', ''Methods''), (''skIterator'', ''Iterators''),
                  (''skTemplate'', ''Templates''), (''skMacro'', ''Macros''),
                  (''skLet'', ''Lets''), (''skVar'', ''Variables'')]"

text \<open>
  The first loop of \<open>_make_module_rst\<close>: \<open>by_kind.setdefault(kind, []).append(entry)\<close>.
  The dict is only ever read at the strings of \<open>_KIND_ORDER\<close>, so the model keeps its
  string keys: an entry whose kind is \<open>None\<close>, a bool or a number is filed under a key
  that is never read, and a list or a dict as kind is unhashable.
\<close>

fun group_by_kind :: "(string \<rightharpoonup> json list) \<Rightarrow> json list \<Rightarrow> error + (string \<rightharpoonup> json list)" where
  "group_by_kind by_kind [] = Inr by_kind"
| "group_by_kind by_kind (entry # rest) =
     (case py_get entry ''type'' (JStr ''skProc'') of
        Inl e \<Rightarrow> Inl e
      | Inr (JStr kind) \<Rightarrow>
          group_by_kind
            (by_kind(kind \<mapsto> (case by_kind kind of None \<Rightarrow> [] | Some es \<Rightarrow> es) @ [entry])) rest
      | Inr (JArr xs) \<Rightarrow> Inl TypeError
      | Inr (JObj kvs) \<Rightarrow> Inl TypeError
      | Inr other \<Rightarrow> group_by_kind by_kind rest)"

text \<open>
  The lines the loop body appends for one entry: the anchor, the heading with its
  underline, the code block and the description.  \<open>count\<close> is what \<open>name_count\<close>
  held for the name before this entry.
\<close>

definition entry_lines :: "string \<Rightarrow> string \<Rightarrow> nat \<Rightarrow> string \<Rightarrow> string \<Rightarrow> string list" where
  "entry_lines module_name name count code desc =
     (let label = (if count = 0 then module_name @ ''.'' @ name
                   else module_name @ ''.'' @ name @ ''.'' @ str_nat count);
          heading = (if count = 0 then name
                     else name @ '' ('' @ str_nat (count + 1) @ '')'')
      in [''.. _'' @ label @ '':'', [],
          heading, replicate (length heading) CHR ''~'', []]
         @ (if code \<noteq> []
            then [''.. code-block:: nim'', []]
                 @ map (\<lambda>code_line. ''   '' @ code_line) (splitlines code) @ [[]]
            else [])
         @ (if desc \<noteq> [] then [desc, []] else []))"

text \<open>
  The body of the loop over the entries of one section.  It returns the updated
  \<open>name_count\<close> and the lines it appends.  A name that is not a string raises
  \<open>TypeError\<close>: a list or a dict is unhashable, and for \<open>None\<close>, a bool or a number the
  count is 0 (an earlier entry with an equal name has raised already), so the heading is
  the name itself and \<open>len(heading)\<close> raises.
\<close>

definition emit_entry :: "string \<Rightarrow> (string \<rightharpoonup> nat) \<Rightarrow> json \<Rightarrow> error + ((string \<rightharpoonup> nat) \<times> string list)" where
  "emit_entry module_name name_count entry =
     (case py_item entry ''name'' of
        Inl e \<Rightarrow> Inl e
      | Inr name_v \<Rightarrow>
     (case py_get entry ''code'' (JStr []) of
        Inl e \<Rightarrow> Inl e
      | Inr code_v \<Rightarrow>
     (case clean_code_of code_v of
        Inl e \<Rightarrow> Inl e
      | Inr code \<Rightarrow>
     (case py_get entry ''description'' (JStr []) of
        Inl e \<Rightarrow> Inl e
      | Inr desc_v \<Rightarrow>
     (case html_to_rst_of desc_v of
        Inl e \<Rightarrow> Inl e
      | Inr desc \<Rightarrow>
     (case name_v of
        JStr name \<Rightarrow>
          let count = (case name_count name of None \<Rightarrow> 0 | Some n \<Rightarrow> n)
          in Inr (name_count(name \<mapsto> count + 1),
                  entry_lines module_name name count code desc)
      | other \<Rightarrow> Inl TypeError))))))"

fun emit_entries :: "string \<Rightarrow> (string \<rightharpoonup> nat) \<Rightarrow> string list \<Rightarrow> json list \<Rightarrow> error + string list" where
  "emit_entries module_name name_count lines [] = Inr lines"
| "emit_entries module_name name_count lines (entry # rest) =
     (case emit_entry module_name name_count entry of
        Inl e \<Rightarrow> Inl e
      | Inr (name_count', new_lines) \<Rightarrow>
          emit_entries module_name name_count' (lines @ new_lines) rest)"

text \<open>The loop over \<open>_KIND_ORDER\<close>; \<open>name_count\<close> starts empty in every section.\<close>

fun emit_sections :: "string \<Rightarrow> (string \<rightharpoonup> json list) \<Rightarrow> string list \<Rightarrow> string list \<Rightarrow> error + string list" where
  "emit_sections module_name by_kind lines [] = Inr lines"
| "emit_sections module_name by_kind lines (kind # kinds) =
     (case by_kind kind of
        None \<Rightarrow> emit_sections module_name by_kind lines kinds
      | Some entries \<Rightarrow>
          if entries = [] then emit_sections module_name by_kind lines kinds
          else
            let section = (case map_of KIND_LABELS kind of None \<Rightarrow> kind | Some l \<Rightarrow> l)
            in (case emit_entries module_name Map.empty
                       (lines @ [section, replicate (length section) CHR ''-'', []]) entries of
                  Inl e \<Rightarrow> Inl e
                | Inr lines' \<Rightarrow> emit_sections module_name by_kind lines' kinds))"

definition make_module_rst :: "string \<Rightarrow> string \<Rightarrow> json \<Rightarrow> error + string" where
  "make_module_rst module_name title data =
     (let bar = replicate (length title) CHR ''='' in
      case py_get data ''moduleDescription'' (JStr []) of
        Inl e \<Rightarrow> Inl e
      | Inr desc_v \<Rightarrow>
     (case html_to_rst_of desc_v of
        Inl e \<Rightarrow> Inl e
      | Inr module_desc \<Rightarrow>
     (let lines = [bar, title, bar, []] @ (if module_desc \<noteq> [] then [module_desc, []] else []) in
      case py_get data ''entries'' (JArr []) of
        Inl e \<Rightarrow> Inl e
      | Inr entries_v \<Rightarrow>
     (case py_iter entries_v of
        Inl e \<Rightarrow> Inl e
      | Inr entries \<Rightarrow>
     (case group_by_kind Map.empty entries of
        Inl e \<Rightarrow> Inl e
      | Inr by_kind \<Rightarrow>
     (case emit_sections module_name by_kind lines KIND_ORDER of
        Inl e \<Rightarrow> Inl e
      | Inr lines' \<Rightarrow> Inr (join [NL] lines' @ [NL])))))))"

definition make_api_index :: "string list \<Rightarrow> string" where
  "make_api_index generated =
     join [NL]
       ([replicate 13 CHR ''='', ''API Reference'', replicate 13 CHR ''='', [],
         ''Complete reference for all exported symbols.'',
         ''Generated automatically from source docstrings via ``nim jsondoc``.'',
         [],
         ''.. toctree::'',
         ''   :maxdepth: 1'',
         ''   :caption: Modules'',
         []]
        @ map (\<lambda>name. ''   '' @ name) generated @ [[]])"

section \<open>The run over the configured modules\<close>

text \<open>
  What the outside world does for one module: what \<open>subprocess.run\<close> gives (the return
  code and whether the output file exists afterwards, or the exception it raises), what
  \<open>json.loads(json_file.read_text())\<close> gives, and the exception of
  \<open>rst_file.write_text\<close>, if any.  \<open>_run_jsondoc\<close> creates the directory of the
  output file with \<open>exist_ok=True\<close>; it is the directory \<open>main\<close> has created before
  the loop.
\<close>

datatype proc_outcome = Exited int bool | Raised error

record world =
  w_jsondoc :: proc_outcome
  w_load :: "error + json"
  w_write :: "error option"

definition run_jsondoc :: "proc_outcome \<Rightarrow> error + bool" where
  "run_jsondoc outcome =
     (case outcome of
        Raised e \<Rightarrow> if e = FileNotFoundError then Inr False else Inl e
      | Exited returncode out_exists \<Rightarrow>
          if returncode \<noteq> 0 then Inr False
          else if \<not> out_exists then Inr False
          else Inr True)"

text \<open>The state of the loop in \<open>main\<close>, with the module pages written so far.\<close>

record run_state =
  st_generated :: "string list"
  st_errors :: "string list"
  st_pages :: "(string \<times> string) list"

type_synonym module = "string \<times> string \<times> string"

definition failed :: "run_state \<Rightarrow> string \<Rightarrow> run_state" where
  "failed st module_name = st\<lparr>st_errors := st_errors st @ [module_name]\<rparr>"

definition succeeded :: "run_state \<Rightarrow> string \<Rightarrow> string \<Rightarrow> run_state" where
  "succeeded st module_name rst_content =
     st\<lparr>st_generated := st_generated st @ [module_name],
        st_pages := st_pages st @ [(module_name @ ''.rst'', rst_content)]\<rparr>"

text \<open>The body of the loop over \<open>MODULES\<close>; \<open>Inl\<close> is an exception that leaves it.\<close>

fun process_module :: "run_state \<Rightarrow> module \<times> world \<Rightarrow> error + run_state" where
  "process_module st ((module_name, nim_file, title), w) =
     (case run_jsondoc (w_jsondoc w) of
        Inl e \<Rightarrow> Inl e
      | Inr ok \<Rightarrow>
          if \<not> ok then Inr (failed st module_name)
          else
            (case w_load w of
               Inl e \<Rightarrow>
                 if e = JSONDecodeError \<or> is_OSError e then Inr (failed st module_name)
                 else Inl e
             | Inr data \<Rightarrow>
                 (case make_module_rst module_name title data of
                    Inl e \<Rightarrow> Inl e
                  | Inr rst_content \<Rightarrow>
                      (case w_write w of
                         Some e \<Rightarrow> Inl e
                       | None \<Rightarrow> Inr (succeeded st module_name rst_content)))))"

fun run_modules :: "run_state \<Rightarrow> (module \<times> world) list \<Rightarrow> error + run_state" where
  "run_modules st [] = Inr st"
| "run_modules st (mw # rest) =
     (case process_module st mw of
        Inl e \<Rightarrow> Inl e
      | Inr st' \<Rightarrow> run_modules st' rest)"

text \<open>
  What a run that returns leaves behind: the generated and the failed modules, the
  pages, the index, the line printed to stderr when modules failed, and the value
  \<open>main\<close> returns.
\<close>

record report =
  r_generated :: "string list"
  r_errors :: "string list"
  r_pages :: "(string \<times> string) list"
  r_index :: string
  r_stderr :: "string option"
  r_status :: int

text \<open>
  What the outside world does for the run as a whole: the exceptions, if any, of
  \<open>API_DIR.mkdir\<close>, of \<open>NIM_JSON_DIR.mkdir\<close> and of writing the index.
\<close>

record env =
  e_mkdir_api :: "error option"
  e_mkdir_json :: "error option"
  e_write_index :: "error option"

definition main :: "env \<Rightarrow> (module \<times> world) list \<Rightarrow> error + report" where
  "main ev modules =
     (case e_mkdir_api ev of
        Some e \<Rightarrow> Inl e
      | None \<Rightarrow>
     (case e_mkdir_json ev of
        Some e \<Rightarrow> Inl e
      | None \<Rightarrow>
     (case run_modules \<lparr>st_generated = [], st_errors = [], st_pages = []\<rparr> modules of
        Inl e \<Rightarrow> Inl e
      | Inr st \<Rightarrow>
     (case e_write_index ev of
        Some e \<Rightarrow> Inl e
      | None \<Rightarrow>
          Inr \<lparr>r_generated = st_generated st,
               r_errors = st_errors st,
               r_pages = st_pages st,
               r_index = make_api_index (st_generated st),
               r_stderr = (if st_errors st \<noteq> []
                           then Some ([NL] @ ''Failed modules: '' @ join '', '' (st_errors st))
                           else None),
               r_status = (if st_errors st \<noteq> [] then 1 else 0)\<rparr>))))"

text \<open>
  \<open>sys.exit(main())\<close>: the process exits with the value \<open>main\<close> returns, and with 1
  when an exception leaves \<open>main\<close>.
\<close>

definition exit_status :: "error + report \<Rightarrow> int" where
  "exit_status r = (case r of Inl e \<Rightarrow> 1 | Inr rep \<Rightarrow> r_status rep)"

section \<open>Well-formed documentation bundles\<close>

text \<open>
  The input the exporter is meant to produce: an optional module description and the
  entries, each with a name and an optional kind tag, signature and description, all of
  them strings.
\<close>

record SymbolEntry =
  se_name :: string
  se_kind :: "string option"
  se_code :: "string option"
  se_description :: "string option"

record DocBundle =
  db_description :: "string option"
  db_entries :: "SymbolEntry list"

definition opt_field :: "string \<Rightarrow> string option \<Rightarrow> (string \<times> json) list" where
  "opt_field key v = (case v of None \<Rightarrow> [] | Some s \<Rightarrow> [(key, JStr s)])"

definition json_of_entry :: "SymbolEntry \<Rightarrow> json" where
  "json_of_entry e =
     JObj ([(''name'', JStr (se_name e))] @ opt_field ''type'' (se_kind e)
           @ opt_field ''code'' (se_code e) @ opt_field ''description'' (se_description e))"

definition json_of_bundle :: "DocBundle \<Rightarrow> json" where
  "json_of_bundle b =
     JObj (opt_field ''moduleDescription'' (db_description b)
           @ [(''entries'', JArr (map json_of_entry (db_entries b)))])"

text \<open>
  The page described from the bundle.  The kind of an entry is its tag, \<open>skProc\<close> when
  there is none.  An entry's block is numbered by the entries of the same name that
  precede it in its section.
\<close>

definition kind_of :: "SymbolEntry \<Rightarrow> string" where
  "kind_of e = (case se_kind e of None \<Rightarrow> ''skProc'' | Some k \<Rightarrow> k)"

definition text_of :: "string option \<Rightarrow> string" where
  "text_of v = (case v of None \<Rightarrow> [] | Some s \<Rightarrow> s)"

definition entry_block :: "string \<Rightarrow> nat \<Rightarrow> SymbolEntry \<Rightarrow> string list" where
  "entry_block module_name count e =
     entry_lines module_name (se_name e) count
       (clean_code (text_of (se_code e))) (html_to_rst (text_of (se_description e)))"

fun entry_blocks :: "string \<Rightarrow> string list \<Rightarrow> SymbolEntry list \<Rightarrow> string list" where
  "entry_blocks module_name seen [] = []"
| "entry_blocks module_name seen (e # es) =
     entry_block module_name (count_list seen (se_name e)) e
     @ entry_blocks module_name (seen @ [se_name e]) es"

definition section_label :: "string \<Rightarrow> string" where
  "section_label kind = (case map_of KIND_LABELS kind of None \<Rightarrow> kind | Some l \<Rightarrow> l)"

definition section_block :: "string \<Rightarrow> string \<Rightarrow> SymbolEntry list \<Rightarrow> string list" where
  "section_block module_name kind es =
     (if es = [] then []
      else [section_label kind, replicate (length (section_label kind)) CHR ''-'', []]
           @ entry_blocks module_name [] es)"

definition title_block :: "string \<Rightarrow> string option \<Rightarrow> string list" where
  "title_block title desc =
     [replicate (length title) CHR ''='', title, replicate (length title) CHR ''='', []]
     @ (if html_to_rst (text_of desc) \<noteq> [] then [html_to_rst (text_of desc), []] else [])"

definition of_kind :: "string \<Rightarrow> SymbolEntry list \<Rightarrow> SymbolEntry list" where
  "of_kind kind es = filter (\<lambda>e. kind_of e = kind) es"

definition page_lines :: "string \<Rightarrow> string \<Rightarrow> DocBundle \<Rightarrow> string list" where
  "page_lines module_name title b =
     title_block title (db_description b)
     @ concat (map (\<lambda>kind. section_block module_name kind (of_kind kind (db_entries b)))
                   KIND_ORDER)"

section \<open>Describing what the signature cleaner removes\<close>

text \<open>\<open>has_sub p s\<close>: the string \<open>p\<close> occurs in \<open>s\<close>.\<close>

fun has_sub :: "string \<Rightarrow> string \<Rightarrow> bool" where
  "has_sub p [] = (p = [])"
| "has_sub p (c # cs) = (lit p (c # cs) \<noteq> None \<or> has_sub p cs)"

text \<open>\<open>has_match m s\<close>: the pattern of the matcher \<open>m\<close> matches somewhere in \<open>s\<close>.\<close>

fun has_match :: "matcher \<Rightarrow> string \<Rightarrow> bool" where
  "has_match m [] = False"
| "has_match m (c # cs) = (m (c # cs) \<noteq> None \<or> has_match m cs)"

text \<open>
  A signature cut at its pragma blocks: each segment is the text \<open>a\<close> before a block,
  the whitespace \<open>ws\<close> between that text and the block, and the \<open>body\<close> between \<open>{.\<close>
  and the first \<open>.}\<close> after it; \<open>tail\<close> is what follows the last block.
\<close>

type_synonym segment = "string \<times> string \<times> string"

definition ok_seg :: "segment \<Rightarrow> bool" where
  "ok_seg sg =
     (case sg of (a, ws, body) \<Rightarrow>
        \<not> has_sub ''{.'' a \<and> (a = [] \<or> \<not> is_space (last a)) \<and>
        list_all is_space ws \<and> \<not> has_sub ''.}'' body)"

definition render_segs :: "segment list \<Rightarrow> string \<Rightarrow> string" where
  "render_segs segs tail =
     concat (map (\<lambda>(a, ws, body). a @ ws @ ''{.'' @ body @ ''.}'') segs) @ tail"

definition kept_segs :: "segment list \<Rightarrow> string \<Rightarrow> string" where
  "kept_segs segs tail = concat (map (\<lambda>(a, ws, body). a) segs) @ tail"

text \<open>
  The cleaner as the specification words it: exactly the blocks from \<open>{.\<close> to the next
  \<open>.}\<close> are removed, then the result is trimmed.
\<close>

definition m_block :: matcher where
  "m_block s =
     (case lit ''{.'' s of
        None \<Rightarrow> None
      | Some r1 \<Rightarrow>
          (case lazy_until True [''.}''] r1 of
             None \<Rightarrow> None
           | Some (g, r2) \<Rightarrow> Some ([], r2)))"

definition clean_spec :: "string \<Rightarrow> string" where
  "clean_spec code = strip (re_sub m_block code)"

section \<open>Text without markup\<close>

text \<open>
  A tag is a match of the pattern \<open><[^>]+>\<close> that strips the remaining tags; every tag
  pattern of the conversion starts with a literal that this pattern matches too.  An
  entity reference is an occurrence of one of the six entities the conversion decodes.
\<close>

definition has_tag :: "string \<Rightarrow> bool" where
  "has_tag x = has_match m_tag x"

definition ENTITIES :: "string list" where
  "ENTITIES = [''&lt;'', ''&gt;'', ''&amp;'', ''&quot;'', ''&#39;'', ''&nbsp;'']"

definition has_entity :: "string \<Rightarrow> bool" where
  "has_entity x = list_ex (\<lambda>e. has_sub e x) ENTITIES"

text \<open>The literals the tag patterns start with: \<open><\<close>, a name, and \<open>>\<close> further on.\<close>

definition tag_literal :: "string \<Rightarrow> bool" where
  "tag_literal p = (case p of
      a # c # ps \<Rightarrow> a = CHR ''<'' \<and> c \<noteq> CHR ''>'' \<and> CHR ''>'' \<in> set ps
    | _ \<Rightarrow> False)"

text \<open>
  Auxiliary notions for the proofs: the \<open>name_count\<close> dict after the names \<open>seen\<close>, the
  \<open>by_kind\<close> dict after the entries \<open>es\<close> have been added to \<open>g\<close>, a module whose
  processing goes through to the written page, and a run in which the directories can
  be created and the index can be written.
\<close>

definition counts_of :: "string list \<Rightarrow> (string \<rightharpoonup> nat)" where
  "counts_of seen = (\<lambda>n. if count_list seen n = 0 then None else Some (count_list seen n))"

definition grouped :: "(string \<rightharpoonup> json list) \<Rightarrow> SymbolEntry list \<Rightarrow> (string \<rightharpoonup> json list)" where
  "grouped g es =
     (\<lambda>k. if of_kind k es = [] then g k
          else Some ((case g k of None \<Rightarrow> [] | Some old \<Rightarrow> old) @ map json_of_entry (of_kind k es)))"

definition module_ok :: "module \<times> world \<Rightarrow> bool" where
  "module_ok mw =
     (case mw of ((module_name, nim_file, title), w) \<Rightarrow>
        run_jsondoc (w_jsondoc w) = Inr True \<and>
        (case w_load w of
           Inl e \<Rightarrow> False
         | Inr data \<Rightarrow>
             (case make_module_rst module_name title data of Inl e \<Rightarrow> False | Inr page \<Rightarrow> True)) \<and>
        w_write w = None)"

definition env_ok :: "env \<Rightarrow> bool" where
  "env_ok ev = (e_mkdir_api ev = None \<and> e_mkdir_json ev = None \<and> e_write_index ev = None)"

section \<open>Properties of the text primitives\<close>

lemma last_dropWhile: "dropWhile P xs \<noteq> [] \<Longrightarrow> last (dropWhile P xs) = last xs"
  by (induction xs) (auto split: if_splits)

lemma strip_hd: "strip s \<noteq> [] \<Longrightarrow> \<not> is_space (hd (strip s))"
proof -
  assume ne: "strip s \<noteq> []"
  let ?t = "dropWhile is_space s"
  let ?u = "dropWhile is_space (rev ?t)"
  from ne have u: "?u \<noteq> []" by (simp add: strip_def)
  have t: "?t \<noteq> []"
  proof
    assume "?t = []"
    then have "?u = []" by (simp only: rev.simps dropWhile.simps)
    with u show False by blast
  qed
  have "hd (strip s) = last ?u" using u by (simp add: strip_def hd_rev)
  also have "\<dots> = last (rev ?t)" using u by (rule last_dropWhile)
  also have "\<dots> = hd ?t" using t by (simp add: last_rev)
  finally show ?thesis using t hd_dropWhile[of is_space s] by simp
qed

lemma strip_last: "strip s \<noteq> [] \<Longrightarrow> \<not> is_space (last (strip s))"
proof -
  assume ne: "strip s \<noteq> []"
  let ?u = "dropWhile is_space (rev (dropWhile is_space s))"
  from ne have u: "?u \<noteq> []" by (simp add: strip_def)
  have "last (strip s) = hd ?u" using u by (simp add: strip_def last_rev)
  then show ?thesis using u hd_dropWhile[of is_space "rev (dropWhile is_space s)"] by simp
qed

section \<open>Properties of the HTML conversion\<close>

text \<open>
  C8.  Entities are decoded after the tags have been removed: \<open>&lt;tag&gt;\<close> converts
  to the literal text \<open><tag>\<close>, whose angle brackets no tag rule sees.
\<close>

theorem html_to_rst_entities_after_tags: "html_to_rst ''&lt;tag&gt;'' = ''<tag>''"
  by code_simp

text \<open>
  C10.  The converted text has no whitespace at its start and none at its end, and
  the empty string converts to the empty string.
\<close>

theorem html_to_rst_trimmed:
  "html_to_rst [] = [] \<and>
   (html_to_rst s \<noteq> [] \<longrightarrow>
      \<not> is_space (hd (html_to_rst s)) \<and> \<not> is_space (last (html_to_rst s)))"
proof -
  have "\<exists>t. html_to_rst s = strip t \<or> html_to_rst s = []"
    by (auto simp: html_to_rst_def Let_def)
  then show ?thesis
    using strip_hd strip_last by (auto simp: html_to_rst_def)
qed

theorem html_to_rst_trimmed_witness:
  "html_to_rst ''  <p> a b </p> '' \<noteq> [] \<and>
   \<not> is_space (hd (html_to_rst ''  <p> a b </p> '')) \<and>
   \<not> is_space (last (html_to_rst ''  <p> a b </p> ''))"
proof -
  have ne: "html_to_rst ''  <p> a b </p> '' \<noteq> []" by code_simp
  with html_to_rst_trimmed [of "''  <p> a b </p> ''"] show ?thesis by blast
qed

section \<open>Page assembly on well-formed bundles\<close>

lemma entry_name: "py_item (json_of_entry e) ''name'' = Inr (JStr (se_name e))"
  by (simp add: json_of_entry_def)

lemma entry_type: "py_get (json_of_entry e) ''type'' (JStr ''skProc'') = Inr (JStr (kind_of e))"
  by (simp add: json_of_entry_def opt_field_def kind_of_def split: option.splits)

lemma entry_code: "py_get (json_of_entry e) ''code'' (JStr []) = Inr (JStr (text_of (se_code e)))"
  by (simp add: json_of_entry_def opt_field_def text_of_def map_add_def split: option.splits)

lemma entry_description:
  "py_get (json_of_entry e) ''description'' (JStr []) = Inr (JStr (text_of (se_description e)))"
  by (simp add: json_of_entry_def opt_field_def text_of_def map_add_def split: option.splits)

lemma emit_entry_wf:
  "emit_entry m (counts_of seen) (json_of_entry e) =
     Inr (counts_of (seen @ [se_name e]), entry_block m (count_list seen (se_name e)) e)"
  by (auto simp: emit_entry_def entry_name entry_code entry_description entry_block_def
                 counts_of_def fun_eq_iff Let_def)

lemma emit_entries_wf:
  "emit_entries m (counts_of seen) lines (map json_of_entry es) =
     Inr (lines @ entry_blocks m seen es)"
  by (induction es arbitrary: seen lines) (simp_all add: emit_entry_wf)

lemma counts_of_Nil: "counts_of [] = Map.empty"
  by (simp add: counts_of_def)

lemma group_by_kind_wf:
  "group_by_kind g (map json_of_entry es) = Inr (grouped g es)"
proof (induction es arbitrary: g)
  case Nil
  show ?case by (simp add: grouped_def of_kind_def)
next
  case (Cons e es)
  let ?g' = "g(kind_of e \<mapsto> (case g (kind_of e) of None \<Rightarrow> [] | Some old \<Rightarrow> old) @ [json_of_entry e])"
  have step: "group_by_kind g (map json_of_entry (e # es)) = group_by_kind ?g' (map json_of_entry es)"
    by (simp add: entry_type)
  have "grouped ?g' es = grouped g (e # es)"
    by (auto simp: grouped_def of_kind_def fun_eq_iff)
  then show ?case by (simp only: step Cons.IH)
qed

lemma grouped_empty:
  "grouped Map.empty es k =
     (if of_kind k es = [] then None else Some (map json_of_entry (of_kind k es)))"
  by (simp add: grouped_def)

lemma emit_sections_wf:
  "emit_sections m (grouped Map.empty es) lines kinds =
     Inr (lines @ concat (map (\<lambda>kind. section_block m kind (of_kind kind es)) kinds))"
proof (induction kinds arbitrary: lines)
  case Nil
  show ?case by simp
next
  case (Cons k ks)
  show ?case
  proof (cases "of_kind k es = []")
    case True
    then show ?thesis using Cons by (simp add: grouped_empty section_block_def)
  next
    case False
    then show ?thesis
      using Cons emit_entries_wf [of m "[]" _ "of_kind k es"]
      by (simp add: grouped_empty section_block_def section_label_def counts_of_Nil Let_def)
  qed
qed

lemma bundle_description:
  "py_get (json_of_bundle b) ''moduleDescription'' (JStr []) = Inr (JStr (text_of (db_description b)))"
  by (simp add: json_of_bundle_def opt_field_def text_of_def split: option.splits)

lemma bundle_entries:
  "py_get (json_of_bundle b) ''entries'' (JArr []) = Inr (JArr (map json_of_entry (db_entries b)))"
  by (simp add: json_of_bundle_def opt_field_def split: option.splits)

lemma make_module_rst_wf:
  "make_module_rst m t (json_of_bundle b) = Inr (join [NL] (page_lines m t b) @ [NL])"
  by (simp add: make_module_rst_def bundle_description bundle_entries group_by_kind_wf
                emit_sections_wf page_lines_def title_block_def Let_def)


text \<open>
  C7.  The page of a bundle is the title block followed by one section for each kind
  of \<open>_KIND_ORDER\<close>, in that order; a section holds the entries of its kind in the
  order of the input, and a kind without entries contributes nothing, not even a
  heading.
\<close>

theorem page_sections_in_kind_order:
  "make_module_rst m t (json_of_bundle b) =
     Inr (join [NL]
            (title_block t (db_description b)
             @ concat (map (\<lambda>kind. section_block m kind
                                      (filter (\<lambda>e. kind_of e = kind) (db_entries b)))
                           KIND_ORDER))
          @ [NL]) \<and>
   section_block m kind [] = []"
  using make_module_rst_wf [of m t b]
  by (simp add: page_lines_def of_kind_def section_block_def)

theorem page_sections_in_kind_order_witness:
  "make_module_rst ''m'' ''T''
     (json_of_bundle
        \<lparr>db_description = None,
         db_entries =
           [\<lparr>se_name = ''b'', se_kind = Some ''skFunc'', se_code = None, se_description = None\<rparr>,
            \<lparr>se_name = ''a'', se_kind = Some ''skType'', se_code = None, se_description = None\<rparr>,
            \<lparr>se_name = ''c'', se_kind = Some ''skFunc'', se_code = None, se_description = None\<rparr>]\<rparr>) =
     Inr (join [NL]
            [''='', ''T'', ''='', [],
             ''Types'', ''-----'', [],
             ''.. _m.a:'', [], ''a'', ''~'', [],
             ''Functions'', ''---------'', [],
             ''.. _m.b:'', [], ''b'', ''~'', [],
             ''.. _m.c:'', [], ''c'', ''~'', []]
          @ [NL])"
proof -
  let ?b = "\<lparr>db_description = None,
         db_entries =
           [\<lparr>se_name = ''b'', se_kind = Some ''skFunc'', se_code = None, se_description = None\<rparr>,
            \<lparr>se_name = ''a'', se_kind = Some ''skType'', se_code = None, se_description = None\<rparr>,
            \<lparr>se_name = ''c'', se_kind = Some ''skFunc'', se_code = None, se_description = None\<rparr>]\<rparr>"
  have "title_block ''T'' (db_description ?b)
        @ concat (map (\<lambda>kind. section_block ''m'' kind
                                 (filter (\<lambda>e. kind_of e = kind) (db_entries ?b)))
                      KIND_ORDER) =
        [''='', ''T'', ''='', [],
             ''Types'', ''-----'', [],
             ''.. _m.a:'', [], ''a'', ''~'', [],
             ''Functions'', ''---------'', [],
             ''.. _m.b:'', [], ''b'', ''~'', [],
             ''.. _m.c:'', [], ''c'', ''~'', []]"
    by code_simp
  with page_sections_in_kind_order [of "''m''" "''T''" ?b] show ?thesis by simp
qed


text \<open>
  C9.  An entry without a \<open>type\<close> field is given the kind \<open>skProc\<close>, a present field is
  taken as it is; the grouping keeps the order of the input within every kind; and the
  page is the one obtained when every missing kind is written out as \<open>skProc\<close>, so
  such entries stand in the Procedures section.
\<close>

theorem absent_kind_is_procedure:
  "py_get (json_of_entry e) ''type'' (JStr ''skProc'') =
     Inr (JStr (case se_kind e of None \<Rightarrow> ''skProc'' | Some k \<Rightarrow> k)) \<and>
   group_by_kind Map.empty (map json_of_entry es) =
     Inr (\<lambda>k. if filter (\<lambda>e. kind_of e = k) es = [] then None
              else Some (map json_of_entry (filter (\<lambda>e. kind_of e = k) es))) \<and>
   make_module_rst m t (json_of_bundle b) =
     make_module_rst m t
       (json_of_bundle (b\<lparr>db_entries := map (\<lambda>e. e\<lparr>se_kind := Some (kind_of e)\<rparr>) (db_entries b)\<rparr>))"
proof (intro conjI)
  show "py_get (json_of_entry e) ''type'' (JStr ''skProc'') =
     Inr (JStr (case se_kind e of None \<Rightarrow> ''skProc'' | Some k \<Rightarrow> k))"
    using entry_type [of e] by (simp add: kind_of_def)
  show "group_by_kind Map.empty (map json_of_entry es) =
     Inr (\<lambda>k. if filter (\<lambda>e. kind_of e = k) es = [] then None
              else Some (map json_of_entry (filter (\<lambda>e. kind_of e = k) es)))"
    by (auto simp: group_by_kind_wf grouped_def of_kind_def fun_eq_iff)
  let ?f = "\<lambda>e. e\<lparr>se_kind := Some (kind_of e)\<rparr>"
  have k: "\<And>e. kind_of (?f e) = kind_of e" by (simp add: kind_of_def)
  have blocks: "\<And>seen es. entry_blocks m seen (map ?f es) = entry_blocks m seen es"
  proof -
    fix seen es show "entry_blocks m seen (map ?f es) = entry_blocks m seen es"
      by (induction es arbitrary: seen) (simp_all add: entry_block_def)
  qed
  have flt: "\<And>kind es. of_kind kind (map ?f es) = map ?f (of_kind kind es)"
    by (simp add: of_kind_def filter_map o_def k)
  have sect: "\<And>kind es. section_block m kind (map ?f es) = section_block m kind es"
    by (simp add: section_block_def blocks)
  have "page_lines m t (b\<lparr>db_entries := map ?f (db_entries b)\<rparr>) = page_lines m t b"
    by (simp add: page_lines_def flt sect)
  then show "make_module_rst m t (json_of_bundle b) =
     make_module_rst m t (json_of_bundle (b\<lparr>db_entries := map ?f (db_entries b)\<rparr>))"
    by (simp add: make_module_rst_wf)
qed

theorem absent_kind_is_procedure_witness:
  "make_module_rst ''m'' ''T''
     (json_of_bundle
        \<lparr>db_description = None,
         db_entries =
           [\<lparr>se_name = ''f'', se_kind = None, se_code = None, se_description = None\<rparr>,
            \<lparr>se_name = ''g'', se_kind = Some ''skProc'', se_code = None, se_description = None\<rparr>,
            \<lparr>se_name = ''h'', se_kind = None, se_code = None, se_description = None\<rparr>]\<rparr>) =
     Inr (join [NL]
            [''='', ''T'', ''='', [],
             ''Procedures'', ''----------'', [],
             ''.. _m.f:'', [], ''f'', ''~'', [],
             ''.. _m.g:'', [], ''g'', ''~'', [],
             ''.. _m.h:'', [], ''h'', ''~'', []]
          @ [NL])"
proof -
  let ?b = "\<lparr>db_description = None,
         db_entries =
           [\<lparr>se_name = ''f'', se_kind = None, se_code = None, se_description = None\<rparr>,
            \<lparr>se_name = ''g'', se_kind = Some ''skProc'', se_code = None, se_description = None\<rparr>,
            \<lparr>se_name = ''h'', se_kind = None, se_code = None, se_description = None\<rparr>]\<rparr>"
  have "make_module_rst ''m'' ''T''
          (json_of_bundle (?b\<lparr>db_entries := map (\<lambda>e. e\<lparr>se_kind := Some (kind_of e)\<rparr>) (db_entries ?b)\<rparr>)) =
        Inr (join [NL]
            [''='', ''T'', ''='', [],
             ''Procedures'', ''----------'', [],
             ''.. _m.f:'', [], ''f'', ''~'', [],
             ''.. _m.g:'', [], ''g'', ''~'', [],
             ''.. _m.h:'', [], ''h'', ''~'', []]
          @ [NL])"
    by code_simp
  with absent_kind_is_procedure [of _ "[]" "''m''" "''T''" ?b] show ?thesis by simp
qed


text \<open>
  C1.  \<open>name_count\<close> is reset for every section.  Three entries named \<open>foo\<close>, the
  second a \<open>skFunc\<close> and the others \<open>skProc\<close>, give the anchors \<open>m.foo\<close>, \<open>m.foo.1\<close> and
  again \<open>m.foo\<close>, with the headings \<open>foo\<close>, \<open>foo (2)\<close> and \<open>foo\<close>: the anchor \<open>m.foo\<close>
  occurs twice in the page.
\<close>

theorem anchors_repeat_across_sections:
  "make_module_rst ''m'' ''T''
     (JObj [(''entries'',
             JArr [JObj [(''name'', JStr ''foo''), (''type'', JStr ''skProc'')],
                   JObj [(''name'', JStr ''foo''), (''type'', JStr ''skFunc'')],
                   JObj [(''name'', JStr ''foo''), (''type'', JStr ''skProc'')]])]) =
     Inr (join [NL]
            [''='', ''T'', ''='', [],
             ''Procedures'', ''----------'', [],
             ''.. _m.foo:'', [], ''foo'', ''~~~'', [],
             ''.. _m.foo.1:'', [], ''foo (2)'', ''~~~~~~~'', [],
             ''Functions'', ''---------'', [],
             ''.. _m.foo:'', [], ''foo'', ''~~~'', []]
          @ [NL])"
  by code_simp


text \<open>
  C3.  An entry whose kind is not in \<open>_KIND_ORDER\<close> is filed in \<open>by_kind\<close> and never
  read again: the page of a module with the single converter \<open>toInt\<close> is the title
  block alone, and nothing reports the omission.
\<close>

theorem unknown_kind_dropped:
  "make_module_rst ''m'' ''T''
     (JObj [(''entries'',
             JArr [JObj [(''name'', JStr ''toInt''), (''type'', JStr ''skConverter'')]])]) =
     Inr (join [NL] [''='', ''T'', ''='', []] @ [NL])"
  by code_simp


section \<open>The run over the modules\<close>

lemma process_module_ok_errors:
  "process_module st mw = Inr st' \<Longrightarrow>
     (st_errors st' = [] \<longleftrightarrow> st_errors st = [] \<and> module_ok mw)"
proof -
  obtain n f t w where mw: "mw = ((n, f, t), w)" by (metis prod_cases3 surj_pair)
  assume "process_module st mw = Inr st'"
  then show ?thesis unfolding mw
    by (auto simp: module_ok_def failed_def succeeded_def split: sum.splits if_splits option.splits)
qed

lemma process_module_raises:
  "process_module st mw = Inl e \<Longrightarrow> \<not> module_ok mw"
proof -
  obtain n f t w where mw: "mw = ((n, f, t), w)" by (metis prod_cases3 surj_pair)
  assume "process_module st mw = Inl e"
  then show ?thesis unfolding mw
    by (auto simp: module_ok_def split: sum.splits if_splits option.splits)
qed

lemma run_modules_errors:
  "run_modules st ms = Inr st' \<Longrightarrow>
     (st_errors st' = [] \<longleftrightarrow> st_errors st = [] \<and> list_all module_ok ms)"
proof (induction ms arbitrary: st)
  case Nil
  then show ?case by simp
next
  case (Cons mw ms)
  then obtain st1 where p: "process_module st mw = Inr st1" and r: "run_modules st1 ms = Inr st'"
    by (auto split: sum.splits)
  from Cons.IH [OF r] process_module_ok_errors [OF p] show ?case by auto
qed

lemma run_modules_raises:
  "run_modules st ms = Inl e \<Longrightarrow> \<not> list_all module_ok ms"
proof (induction ms arbitrary: st)
  case Nil
  then show ?case by simp
next
  case (Cons mw ms)
  then show ?case
    by (auto split: sum.splits dest: process_module_raises)
qed

lemma exit_status_zero:
  "exit_status (main ev ms) = 0 \<longleftrightarrow> env_ok ev \<and> list_all module_ok ms"
proof (cases "env_ok ev")
  case False
  then show ?thesis
    by (auto simp: env_ok_def exit_status_def main_def split: option.splits sum.splits)
next
  case True
  then have ev: "e_mkdir_api ev = None" "e_mkdir_json ev = None" "e_write_index ev = None"
    by (simp_all add: env_ok_def)
  show ?thesis
  proof (cases "run_modules \<lparr>st_generated = [], st_errors = [], st_pages = []\<rparr> ms")
    case (Inl e)
    then show ?thesis
      using run_modules_raises [OF Inl] True by (simp add: exit_status_def main_def ev)
  next
    case (Inr st')
    then show ?thesis
      using run_modules_errors [OF Inr] True by (simp add: exit_status_def main_def ev)
  qed
qed

text \<open>
  C2, as stated, fails: page assembly runs outside every \<open>try\<close>, so the \<open>KeyError\<close>
  of an entry without a name leaves the processing of the module.
\<close>

theorem assembly_error_escapes:
  "process_module \<lparr>st_generated = [], st_errors = [], st_pages = []\<rparr>
     ((''m'', ''m.nim'', ''T''),
      \<lparr>w_jsondoc = Exited 0 True,
       w_load = Inr (JObj [(''entries'', JArr [JObj [(''type'', JStr ''skProc'')]])]),
       w_write = None\<rparr>) = Inl KeyError"
  by code_simp


text \<open>
  C2, amended.  The exporter fails quietly exactly when the executable is missing, the
  return code is not zero or the output file does not exist; such a failure, a
  \<open>JSONDecodeError\<close> and an \<open>OSError\<close> while loading put the module into the failed list
  and the run goes on with the next module.  For a well-formed bundle whose page can be
  written the module is recorded as generated and the run goes on.
\<close>

theorem caught_failures_continue:
  "(run_jsondoc outcome = Inr False \<longleftrightarrow>
      outcome = Raised FileNotFoundError \<or>
      (\<exists>returncode out_exists. outcome = Exited returncode out_exists \<and>
                                (returncode \<noteq> 0 \<or> \<not> out_exists))) \<and>
   (run_jsondoc (w_jsondoc w) = Inr False \<or>
    run_jsondoc (w_jsondoc w) = Inr True \<and>
    (w_load w = Inl JSONDecodeError \<or> (\<exists>e. w_load w = Inl e \<and> is_OSError e)) \<longrightarrow>
      run_modules st (((n, f, t), w) # rest) = run_modules (failed st n) rest) \<and>
   (run_jsondoc (w_jsondoc w) = Inr True \<and> w_load w = Inr (json_of_bundle b) \<and>
    w_write w = None \<longrightarrow>
      run_modules st (((n, f, t), w) # rest) =
        run_modules (succeeded st n (join [NL] (page_lines n t b) @ [NL])) rest)"
proof (intro conjI)
  show "run_jsondoc outcome = Inr False \<longleftrightarrow>
      outcome = Raised FileNotFoundError \<or>
      (\<exists>returncode out_exists. outcome = Exited returncode out_exists \<and>
                                (returncode \<noteq> 0 \<or> \<not> out_exists))"
    by (cases outcome) (auto simp: run_jsondoc_def)
  show "run_jsondoc (w_jsondoc w) = Inr False \<or>
    run_jsondoc (w_jsondoc w) = Inr True \<and>
    (w_load w = Inl JSONDecodeError \<or> (\<exists>e. w_load w = Inl e \<and> is_OSError e)) \<longrightarrow>
      run_modules st (((n, f, t), w) # rest) = run_modules (failed st n) rest"
    by auto
  show "run_jsondoc (w_jsondoc w) = Inr True \<and> w_load w = Inr (json_of_bundle b) \<and>
    w_write w = None \<longrightarrow>
      run_modules st (((n, f, t), w) # rest) =
        run_modules (succeeded st n (join [NL] (page_lines n t b) @ [NL])) rest"
    by (simp add: make_module_rst_wf)
qed

theorem caught_failures_continue_witness:
  "run_modules \<lparr>st_generated = [], st_errors = [], st_pages = []\<rparr>
     [((''a'', ''a.nim'', ''A''),
       \<lparr>w_jsondoc = Raised FileNotFoundError, w_load = Inl FileNotFoundError, w_write = None\<rparr>)] =
     Inr \<lparr>st_generated = [], st_errors = [''a''], st_pages = []\<rparr> \<and>
   run_modules \<lparr>st_generated = [], st_errors = [], st_pages = []\<rparr>
     [((''b'', ''b.nim'', ''B''),
       \<lparr>w_jsondoc = Exited 0 True,
        w_load = Inr (json_of_bundle \<lparr>db_description = None, db_entries = []\<rparr>),
        w_write = None\<rparr>)] =
     Inr \<lparr>st_generated = [''b''], st_errors = [],
          st_pages = [(''b.rst'', join [NL] [''='', ''B'', ''='', []] @ [NL])]\<rparr>"
proof -
  let ?st = "\<lparr>st_generated = [], st_errors = [], st_pages = []\<rparr>"
  let ?wa = "\<lparr>w_jsondoc = Raised FileNotFoundError, w_load = Inl FileNotFoundError, w_write = None\<rparr>"
  let ?b = "\<lparr>db_description = None, db_entries = []\<rparr>"
  let ?wb = "\<lparr>w_jsondoc = Exited 0 True, w_load = Inr (json_of_bundle ?b), w_write = None\<rparr>"
  have a: "run_jsondoc (w_jsondoc ?wa) = Inr False" by (simp add: run_jsondoc_def)
  have b: "run_jsondoc (w_jsondoc ?wb) = Inr True \<and> w_load ?wb = Inr (json_of_bundle ?b) \<and>
           w_write ?wb = None" by (simp add: run_jsondoc_def)
  have p: "page_lines ''b'' ''B'' ?b = [''='', ''B'', ''='', []]" by code_simp
  from a caught_failures_continue [where w = ?wa and st = ?st and n = "''a''" and f = "''a.nim''"
      and t = "''A''" and rest = "[]"]
  have "run_modules ?st [((''a'', ''a.nim'', ''A''), ?wa)] = run_modules (failed ?st ''a'') []"
    by blast
  then have 1: "run_modules ?st [((''a'', ''a.nim'', ''A''), ?wa)] = Inr (failed ?st ''a'')"
    by (simp only: run_modules.simps)
  from b caught_failures_continue [where w = ?wb and st = ?st and n = "''b''" and f = "''b.nim''"
      and t = "''B''" and rest = "[]" and b = ?b]
  have "run_modules ?st [((''b'', ''b.nim'', ''B''), ?wb)] =
             run_modules (succeeded ?st ''b'' (join [NL] (page_lines ''b'' ''B'' ?b) @ [NL])) []"
    by blast
  then have 2: "run_modules ?st [((''b'', ''b.nim'', ''B''), ?wb)] =
             Inr (succeeded ?st ''b'' (join [NL] (page_lines ''b'' ''B'' ?b) @ [NL]))"
    by (simp only: run_modules.simps)
  from 1 2 p show ?thesis by (simp add: failed_def succeeded_def)
qed


text \<open>
  C6, as stated, fails: an exporter invocation also fails when \<open>subprocess.run\<close> raises
  something other than \<open>FileNotFoundError\<close>, and then the exception leaves \<open>main\<close>: no
  index is written and no failure list is printed.
\<close>

theorem exporter_exception_leaves_main:
  "main \<lparr>e_mkdir_api = None, e_mkdir_json = None, e_write_index = None\<rparr>
     [((''a'', ''a.nim'', ''A''),
       \<lparr>w_jsondoc = Raised PermissionError, w_load = Inl FileNotFoundError, w_write = None\<rparr>),
      ((''b'', ''b.nim'', ''B''),
       \<lparr>w_jsondoc = Exited 0 True, w_load = Inr (JObj []), w_write = None\<rparr>)] =
     Inl PermissionError"
  by code_simp

text \<open>
  C6, amended.  Take two modules, in either order: one whose exporter fails in a way
  \<open>_run_jsondoc\<close> reports (the executable is missing, the return code is not zero or the
  output file does not exist) and one that goes through.  When the directories and the
  index can be written, \<open>main\<close> returns 1, the index written is the fixed header followed
  by the one line of the module that went through, and the failed module is named in the
  line written to stderr.  In general the exit status is 0 exactly when the directories
  and the index can be written and every module goes through.
\<close>

theorem one_exporter_failure:
  "(env_ok ev \<and>
    (w_jsondoc wa = Raised FileNotFoundError \<or>
     (\<exists>returncode out_exists. w_jsondoc wa = Exited returncode out_exists \<and>
                               (returncode \<noteq> 0 \<or> \<not> out_exists))) \<and>
    w_jsondoc wb = Exited 0 True \<and> w_load wb = Inr d \<and>
    make_module_rst nb tb d = Inr page \<and> w_write wb = None \<longrightarrow>
      main ev [((na, fa, ta), wa), ((nb, fb, tb), wb)] =
        Inr \<lparr>r_generated = [nb], r_errors = [na], r_pages = [(nb @ ''.rst'', page)],
             r_index =
               join [NL]
                 [''============='', ''API Reference'', ''============='', [],
                  ''Complete reference for all exported symbols.'',
                  ''Generated automatically from source docstrings via ``nim jsondoc``.'',
                  [], ''.. toctree::'', ''   :maxdepth: 1'', ''   :caption: Modules'', [],
                  ''   '' @ nb, []],
             r_stderr = Some ([NL] @ ''Failed modules: '' @ na), r_status = 1\<rparr> \<and>
      main ev [((nb, fb, tb), wb), ((na, fa, ta), wa)] =
        Inr \<lparr>r_generated = [nb], r_errors = [na], r_pages = [(nb @ ''.rst'', page)],
             r_index =
               join [NL]
                 [''============='', ''API Reference'', ''============='', [],
                  ''Complete reference for all exported symbols.'',
                  ''Generated automatically from source docstrings via ``nim jsondoc``.'',
                  [], ''.. toctree::'', ''   :maxdepth: 1'', ''   :caption: Modules'', [],
                  ''   '' @ nb, []],
             r_stderr = Some ([NL] @ ''Failed modules: '' @ na), r_status = 1\<rparr>) \<and>
   (exit_status (main ev ms) = 0 \<longleftrightarrow> env_ok ev \<and> list_all module_ok ms)"
proof (rule conjI)
  show "exit_status (main ev ms) = 0 \<longleftrightarrow> env_ok ev \<and> list_all module_ok ms"
    by (rule exit_status_zero)
  have idx: "make_api_index [nb] =
      join [NL]
        [''============='', ''API Reference'', ''============='', [],
         ''Complete reference for all exported symbols.'',
         ''Generated automatically from source docstrings via ``nim jsondoc``.'',
         [], ''.. toctree::'', ''   :maxdepth: 1'', ''   :caption: Modules'', [],
         ''   '' @ nb, []]"
    by (simp add: make_api_index_def eval_nat_numeral)
  have a: "run_jsondoc (w_jsondoc wa) = Inr False"
    if "w_jsondoc wa = Raised FileNotFoundError \<or>
        (\<exists>returncode out_exists. w_jsondoc wa = Exited returncode out_exists \<and>
                                  (returncode \<noteq> 0 \<or> \<not> out_exists))"
    using that by (auto simp: run_jsondoc_def)
  have b: "run_jsondoc (w_jsondoc wb) = Inr True" if "w_jsondoc wb = Exited 0 True"
    using that by (simp add: run_jsondoc_def)
  show "env_ok ev \<and>
    (w_jsondoc wa = Raised FileNotFoundError \<or>
     (\<exists>returncode out_exists. w_jsondoc wa = Exited returncode out_exists \<and>
                               (returncode \<noteq> 0 \<or> \<not> out_exists))) \<and>
    w_jsondoc wb = Exited 0 True \<and> w_load wb = Inr d \<and>
    make_module_rst nb tb d = Inr page \<and> w_write wb = None \<longrightarrow>
      main ev [((na, fa, ta), wa), ((nb, fb, tb), wb)] =
        Inr \<lparr>r_generated = [nb], r_errors = [na], r_pages = [(nb @ ''.rst'', page)],
             r_index =
               join [NL]
                 [''============='', ''API Reference'', ''============='', [],
                  ''Complete reference for all exported symbols.'',
                  ''Generated automatically from source docstrings via ``nim jsondoc``.'',
                  [], ''.. toctree::'', ''   :maxdepth: 1'', ''   :caption: Modules'', [],
                  ''   '' @ nb, []],
             r_stderr = Some ([NL] @ ''Failed modules: '' @ na), r_status = 1\<rparr> \<and>
      main ev [((nb, fb, tb), wb), ((na, fa, ta), wa)] =
        Inr \<lparr>r_generated = [nb], r_errors = [na], r_pages = [(nb @ ''.rst'', page)],
             r_index =
               join [NL]
                 [''============='', ''API Reference'', ''============='', [],
                  ''Complete reference for all exported symbols.'',
                  ''Generated automatically from source docstrings via ``nim jsondoc``.'',
                  [], ''.. toctree::'', ''   :maxdepth: 1'', ''   :caption: Modules'', [],
                  ''   '' @ nb, []],
             r_stderr = Some ([NL] @ ''Failed modules: '' @ na), r_status = 1\<rparr>"
  proof (intro impI, elim conjE)
    assume ev: "env_ok ev"
      and fa: "w_jsondoc wa = Raised FileNotFoundError \<or>
        (\<exists>returncode out_exists. w_jsondoc wa = Exited returncode out_exists \<and>
                                  (returncode \<noteq> 0 \<or> \<not> out_exists))"
      and ok: "w_jsondoc wb = Exited 0 True" "w_load wb = Inr d"
              "make_module_rst nb tb d = Inr page" "w_write wb = None"
    have e: "e_mkdir_api ev = None" "e_mkdir_json ev = None" "e_write_index ev = None"
      using ev by (simp_all add: env_ok_def)
    have 1: "run_modules \<lparr>st_generated = [], st_errors = [], st_pages = []\<rparr>
               [((na, fa, ta), wa), ((nb, fb, tb), wb)] =
             Inr \<lparr>st_generated = [nb], st_errors = [na], st_pages = [(nb @ ''.rst'', page)]\<rparr>"
      using a [OF fa] b [OF ok(1)] ok(2-4) by (simp add: failed_def succeeded_def)
    have 2: "run_modules \<lparr>st_generated = [], st_errors = [], st_pages = []\<rparr>
               [((nb, fb, tb), wb), ((na, fa, ta), wa)] =
             Inr \<lparr>st_generated = [nb], st_errors = [na], st_pages = [(nb @ ''.rst'', page)]\<rparr>"
      using a [OF fa] b [OF ok(1)] ok(2-4) by (simp add: failed_def succeeded_def)
    show "main ev [((na, fa, ta), wa), ((nb, fb, tb), wb)] =
        Inr \<lparr>r_generated = [nb], r_errors = [na], r_pages = [(nb @ ''.rst'', page)],
             r_index =
               join [NL]
                 [''============='', ''API Reference'', ''============='', [],
                  ''Complete reference for all exported symbols.'',
                  ''Generated automatically from source docstrings via ``nim jsondoc``.'',
                  [], ''.. toctree::'', ''   :maxdepth: 1'', ''   :caption: Modules'', [],
                  ''   '' @ nb, []],
             r_stderr = Some ([NL] @ ''Failed modules: '' @ na), r_status = 1\<rparr> \<and>
      main ev [((nb, fb, tb), wb), ((na, fa, ta), wa)] =
        Inr \<lparr>r_generated = [nb], r_errors = [na], r_pages = [(nb @ ''.rst'', page)],
             r_index =
               join [NL]
                 [''============='', ''API Reference'', ''============='', [],
                  ''Complete reference for all exported symbols.'',
                  ''Generated automatically from source docstrings via ``nim jsondoc``.'',
                  [], ''.. toctree::'', ''   :maxdepth: 1'', ''   :caption: Modules'', [],
                  ''   '' @ nb, []],
             r_stderr = Some ([NL] @ ''Failed modules: '' @ na), r_status = 1\<rparr>"
      unfolding main_def e 1 2 idx [symmetric] by simp
  qed
qed

theorem one_exporter_failure_witness:
  "main \<lparr>e_mkdir_api = None, e_mkdir_json = None, e_write_index = None\<rparr>
        [((''a'', ''a.nim'', ''A''),
          \<lparr>w_jsondoc = Exited 1 False, w_load = Inl FileNotFoundError, w_write = None\<rparr>),
         ((''b'', ''b.nim'', ''B''),
          \<lparr>w_jsondoc = Exited 0 True, w_load = Inr (JObj []), w_write = None\<rparr>)] =
     Inr \<lparr>r_generated = [''b''], r_errors = [''a''],
          r_pages = [(''b.rst'', join [NL] [''='', ''B'', ''='', []] @ [NL])],
          r_index =
            join [NL]
              [''============='', ''API Reference'', ''============='', [],
               ''Complete reference for all exported symbols.'',
               ''Generated automatically from source docstrings via ``nim jsondoc``.'',
               [], ''.. toctree::'', ''   :maxdepth: 1'', ''   :caption: Modules'', [],
               ''   b'', []],
          r_stderr = Some ([NL] @ ''Failed modules: a''), r_status = 1\<rparr>"
proof -
  let ?ev = "\<lparr>e_mkdir_api = None, e_mkdir_json = None, e_write_index = None\<rparr>"
  let ?wa = "\<lparr>w_jsondoc = Exited 1 False, w_load = Inl FileNotFoundError, w_write = None\<rparr>"
  let ?wb = "\<lparr>w_jsondoc = Exited 0 True, w_load = Inr (JObj []), w_write = None\<rparr>"
  have p: "make_module_rst ''b'' ''B'' (JObj []) = Inr (join [NL] [''='', ''B'', ''='', []] @ [NL])"
    by code_simp
  have h: "env_ok ?ev \<and>
    (w_jsondoc ?wa = Raised FileNotFoundError \<or>
     (\<exists>returncode out_exists. w_jsondoc ?wa = Exited returncode out_exists \<and>
                               (returncode \<noteq> 0 \<or> \<not> out_exists))) \<and>
    w_jsondoc ?wb = Exited 0 True \<and> w_load ?wb = Inr (JObj []) \<and>
    make_module_rst ''b'' ''B'' (JObj []) = Inr (join [NL] [''='', ''B'', ''='', []] @ [NL]) \<and>
    w_write ?wb = None"
    using p by (auto simp: env_ok_def)
  from h one_exporter_failure [where ev = ?ev and wa = ?wa and wb = ?wb and d = "JObj []"
      and nb = "''b''" and tb = "''B''" and page = "join [NL] [''='', ''B'', ''='', []] @ [NL]"
      and na = "''a''" and fa = "''a.nim''" and ta = "''A''" and fb = "''b.nim''" and ms = "[]"]
  have "main ?ev [((''a'', ''a.nim'', ''A''), ?wa), ((''b'', ''b.nim'', ''B''), ?wb)] =
        Inr \<lparr>r_generated = [''b''], r_errors = [''a''],
             r_pages = [(''b'' @ ''.rst'', join [NL] [''='', ''B'', ''='', []] @ [NL])],
             r_index =
               join [NL]
                 [''============='', ''API Reference'', ''============='', [],
                  ''Complete reference for all exported symbols.'',
                  ''Generated automatically from source docstrings via ``nim jsondoc``.'',
                  [], ''.. toctree::'', ''   :maxdepth: 1'', ''   :caption: Modules'', [],
                  ''   '' @ ''b'', []],
             r_stderr = Some ([NL] @ ''Failed modules: '' @ ''a''), r_status = 1\<rparr>"
    by blast
  then show ?thesis by simp
qed

section \<open>Properties of the signature cleaner\<close>

lemma lit_Some: "lit p s = Some r \<longleftrightarrow> s = p @ r"
  by (induction p s rule: lit.induct) auto

lemma has_sub_iff: "has_sub p s \<longleftrightarrow> (\<exists>u v. s = u @ p @ v)"
proof (induction s)
  case Nil
  show ?case by auto
next
  case (Cons c cs)
  have "lit p (c # cs) \<noteq> None \<longleftrightarrow> (\<exists>v. c # cs = p @ v)"
    using lit_Some [of p "c # cs"] by auto
  moreover have "(\<exists>u v. c # cs = u @ p @ v) \<longleftrightarrow> (\<exists>v. c # cs = p @ v) \<or> (\<exists>u v. cs = u @ p @ v)"
  proof
    assume "\<exists>u v. c # cs = u @ p @ v"
    then obtain u v where uv: "c # cs = u @ p @ v" by blast
    show "(\<exists>v. c # cs = p @ v) \<or> (\<exists>u v. cs = u @ p @ v)"
    proof (cases u)
      case Nil
      with uv show ?thesis by auto
    next
      case (Cons x u')
      with uv have "cs = u' @ p @ v" by simp
      then show ?thesis by blast
    qed
  next
    assume "(\<exists>v. c # cs = p @ v) \<or> (\<exists>u v. cs = u @ p @ v)"
    then show "\<exists>u v. c # cs = u @ p @ v"
    proof
      assume "\<exists>v. c # cs = p @ v"
      then obtain v where "c # cs = [] @ p @ v" by auto
      then show ?thesis by blast
    next
      assume "\<exists>u v. cs = u @ p @ v"
      then obtain u v where "cs = u @ p @ v" by blast
      then have "c # cs = (c # u) @ p @ v" by simp
      then show ?thesis by blast
    qed
  qed
  ultimately show ?case using Cons by simp
qed

lemma re_sub_match:
  "m s = Some (rep, rest) \<Longrightarrow> length rest < length s \<Longrightarrow> re_sub m s = rep @ re_sub m rest"
  by (cases s) auto

lemma re_sub_nomatch: "m (c # cs) = None \<Longrightarrow> re_sub m (c # cs) = c # re_sub m cs"
  by simp

lemma re_sub_id: "(\<And>u v. s = u @ v \<Longrightarrow> v \<noteq> [] \<Longrightarrow> m v = None) \<Longrightarrow> re_sub m s = s"
proof (induction s)
  case Nil
  show ?case by simp
next
  case (Cons c cs)
  have "m (c # cs) = None" using Cons.prems [of "[]" "c # cs"] by simp
  moreover have "re_sub m cs = cs"
  proof (rule Cons.IH)
    fix u v assume "cs = u @ v" "v \<noteq> []"
    then show "m v = None" using Cons.prems [of "c # u" v] by simp
  qed
  ultimately show ?case by simp
qed

lemma dropWhile_suffix: "\<exists>u. s = u @ dropWhile P s"
  by (metis takeWhile_dropWhile_id)

lemma has_sub_suffix: "\<not> has_sub p (u @ v) \<Longrightarrow> \<not> has_sub p v"
  using has_sub_iff by (metis append.assoc)

lemma has_sub_prefix: "\<not> has_sub p (u @ v) \<Longrightarrow> \<not> has_sub p u"
  using has_sub_iff by (metis append.assoc)


lemma has_match_iff: "has_match m s \<longleftrightarrow> (\<exists>u v. s = u @ v \<and> v \<noteq> [] \<and> m v \<noteq> None)"
proof (induction s)
  case Nil
  show ?case by simp
next
  case (Cons c cs)
  show ?case
  proof
    assume "has_match m (c # cs)"
    then consider "m (c # cs) \<noteq> None" | "has_match m cs" by auto
    then show "\<exists>u v. c # cs = u @ v \<and> v \<noteq> [] \<and> m v \<noteq> None"
    proof cases
      case 1
      then have "c # cs = [] @ (c # cs) \<and> c # cs \<noteq> [] \<and> m (c # cs) \<noteq> None" by simp
      then show ?thesis by blast
    next
      case 2
      with Cons obtain u v where "cs = u @ v" "v \<noteq> []" "m v \<noteq> None" by blast
      then have "c # cs = (c # u) @ v \<and> v \<noteq> [] \<and> m v \<noteq> None" by simp
      then show ?thesis by blast
    qed
  next
    assume "\<exists>u v. c # cs = u @ v \<and> v \<noteq> [] \<and> m v \<noteq> None"
    then obtain u v where uv: "c # cs = u @ v" "v \<noteq> []" "m v \<noteq> None" by blast
    show "has_match m (c # cs)"
    proof (cases u)
      case Nil
      with uv have "m (c # cs) \<noteq> None" by simp
      then show ?thesis by simp
    next
      case (Cons x u')
      with uv have "cs = u' @ v" by simp
      with uv Cons.IH have "has_match m cs" by blast
      then show ?thesis by simp
    qed
  qed
qed

lemma re_sub_no_match: "\<not> has_match m s \<Longrightarrow> re_sub m s = s"
proof (rule re_sub_id)
  fix u v assume "\<not> has_match m s" "s = u @ v" "v \<noteq> []"
  then show "m v = None" using has_match_iff [of m s] by blast
qed

lemma first_match:
  "has_match m s \<Longrightarrow>
     \<exists>p v. s = p @ v \<and> m v \<noteq> None \<and> (\<forall>p1 p2. p = p1 @ p2 \<and> p2 \<noteq> [] \<longrightarrow> m (p2 @ v) = None)"
proof (induction s)
  case Nil
  then show ?case by simp
next
  case (Cons c cs)
  show ?case
  proof (cases "m (c # cs) = None")
    case False
    then have "c # cs = [] @ (c # cs) \<and> m (c # cs) \<noteq> None \<and>
               (\<forall>p1 p2. [] = p1 @ p2 \<and> p2 \<noteq> [] \<longrightarrow> m (p2 @ (c # cs)) = None)" by simp
    then show ?thesis by blast
  next
    case True
    with Cons.prems have "has_match m cs" by simp
    from Cons.IH [OF this] obtain p v where
      pv: "cs = p @ v" "m v \<noteq> None" "\<forall>p1 p2. p = p1 @ p2 \<and> p2 \<noteq> [] \<longrightarrow> m (p2 @ v) = None"
      by blast
    have "\<forall>p1 p2. c # p = p1 @ p2 \<and> p2 \<noteq> [] \<longrightarrow> m (p2 @ v) = None"
    proof (intro allI impI)
      fix p1 p2 assume h: "c # p = p1 @ p2 \<and> p2 \<noteq> []"
      show "m (p2 @ v) = None"
      proof (cases p1)
        case Nil
        with h pv(1) True show ?thesis by auto
      next
        case (Cons x p1')
        with h have "p = p1' @ p2" by simp
        with pv(3) h show ?thesis by blast
      qed
    qed
    with pv have "c # cs = (c # p) @ v \<and> m v \<noteq> None \<and>
                  (\<forall>p1 p2. c # p = p1 @ p2 \<and> p2 \<noteq> [] \<longrightarrow> m (p2 @ v) = None)" by simp
    then show ?thesis by blast
  qed
qed

lemma lazy_until_Some:
  "e \<noteq> [] \<Longrightarrow> lazy_until True [e] s = Some (g, r) \<Longrightarrow> s = g @ e @ r \<and> \<not> has_sub e g"
proof (induction s arbitrary: g)
  case Nil
  then show ?case by (cases e) auto
next
  case (Cons c cs)
  show ?case
  proof (cases "lit e (c # cs)")
    case (Some r')
    with Cons.prems have "g = []" "r = r'" by auto
    moreover have "c # cs = e @ r'" using Some lit_Some by blast
    ultimately show ?thesis using Cons.prems(1) by (cases e) auto
  next
    case None
    with Cons.prems obtain g' where g': "lazy_until True [e] cs = Some (g', r)" "g = c # g'"
      by (auto split: option.splits)
    from Cons.IH [OF Cons.prems(1) g'(1)] have ih: "cs = g' @ e @ r" "\<not> has_sub e g'" by auto
    have "lit e (c # g') = None"
    proof (rule ccontr)
      assume "lit e (c # g') \<noteq> None"
      then obtain x where "c # g' = e @ x" using lit_Some by fastforce
      then have "c # cs = e @ (x @ e @ r)" using ih(1) by (metis append_Cons append_assoc)
      then have "lit e (c # cs) = Some (x @ e @ r)" using lit_Some by blast
      with None show False by simp
    qed
    with ih g'(2) show ?thesis by simp
  qed
qed

lemma lazy_until_found: "has_sub e s \<Longrightarrow> lazy_until True [e] s \<noteq> None"
proof (induction s)
  case Nil
  then show ?case by simp
next
  case (Cons c cs)
  show ?case
  proof (cases "lit e (c # cs)")
    case (Some r)
    then show ?thesis by simp
  next
    case None
    with Cons.prems have "has_sub e cs" by simp
    from Cons.IH [OF this] None show ?thesis by (auto split: option.splits)
  qed
qed

lemma m_pragma_eq: "m_pragma v = m_block (dropWhile is_space v)"
  by (simp add: m_pragma_def m_block_def)

lemma m_block_found: "has_sub ''.}'' t \<Longrightarrow> m_block (''{.'' @ t) \<noteq> None"
  using lazy_until_found [of "''.}''" t] by (auto simp: m_block_def split: option.splits)

lemma m_block_Some:
  "m_block v \<noteq> None \<Longrightarrow>
     \<exists>body rest. v = ''{.'' @ body @ ''.}'' @ rest \<and> \<not> has_sub ''.}'' body"
proof -
  assume "m_block v \<noteq> None"
  then obtain r1 g r2 where r1: "lit ''{.'' v = Some r1" and l: "lazy_until True [''.}''] r1 = Some (g, r2)"
    by (auto simp: m_block_def split: option.splits)
  have "v = ''{.'' @ r1" using r1 lit_Some by blast
  moreover have "r1 = g @ ''.}'' @ r2 \<and> \<not> has_sub ''.}'' g"
    using l by (intro lazy_until_Some) simp_all
  ultimately show ?thesis by blast
qed

lemma re_sub_pragma_tail: "\<not> has_match m_block s \<Longrightarrow> re_sub m_pragma s = s"
proof (rule re_sub_id)
  fix u v assume n: "\<not> has_match m_block s" and s: "s = u @ v" and v: "v \<noteq> []"
  obtain w where w: "v = w @ dropWhile is_space v" using dropWhile_suffix by blast
  show "m_pragma v = None"
  proof (cases "dropWhile is_space v = []")
    case True
    show ?thesis unfolding m_pragma_eq True by (simp add: m_block_def)
  next
    case False
    have "s = (u @ w) @ dropWhile is_space v" using s w by simp
    with n False have "m_block (dropWhile is_space v) = None"
      using has_match_iff [of m_block s] by blast
    then show ?thesis by (simp add: m_pragma_eq)
  qed
qed


lemma lazy_until_close:
  "\<not> has_sub ''.}'' body \<Longrightarrow> lazy_until True [''.}''] (body @ ''.}'' @ rest) = Some (body, rest)"
proof (induction body)
  case Nil
  show ?case by simp
next
  case (Cons c body)
  have n: "\<not> has_sub ''.}'' body" using Cons.prems by simp
  have "lit ''.}'' (c # body @ ''.}'' @ rest) = None"
  proof (cases body)
    case Nil
    then show ?thesis by auto
  next
    case (Cons d body')
    with Cons.prems show ?thesis by (auto split: if_splits)
  qed
  with Cons.IH [OF n] show ?case by simp
qed

lemma not_space_brace: "\<not> is_space CHR ''{''" "\<not> is_space CHR ''.''"
  by (simp_all add: is_space_def)

lemma m_pragma_block:
  assumes "list_all is_space ws" "\<not> has_sub ''.}'' body"
  shows "m_pragma (ws @ ''{.'' @ body @ ''.}'' @ rest) = Some ([], rest)"
proof -
  have "dropWhile is_space (ws @ ''{.'' @ body @ ''.}'' @ rest) = ''{.'' @ body @ ''.}'' @ rest"
    using assms(1) by (induction ws) (simp_all add: not_space_brace)
  then show ?thesis
    using lazy_until_close [OF assms(2), of rest] by (simp add: m_pragma_def)
qed

lemma m_pragma_inside:
  assumes a: "a \<noteq> []" "\<not> is_space (last a)" "\<not> has_sub ''{.'' a"
    and ws: "list_all is_space ws"
  shows "m_pragma (a @ ws @ ''{.'' @ x) = None"
proof -
  have d: "dropWhile is_space (a @ ws @ ''{.'' @ x) = dropWhile is_space a @ ws @ ''{.'' @ x"
    using a(1,2) by (intro dropWhile_append1 [of "last a"]) auto
  have ne: "dropWhile is_space a \<noteq> []"
    using a(1,2) by (metis dropWhile_eq_Nil_conv last_in_set)
  obtain u where u: "a = u @ dropWhile is_space a" using dropWhile_suffix by blast
  then have n: "\<not> has_sub ''{.'' (dropWhile is_space a)" using a(3) has_sub_suffix by metis
  have "lit ''{.'' (dropWhile is_space a @ ws @ ''{.'' @ x) = None"
  proof (cases "dropWhile is_space a")
    case Nil
    with ne show ?thesis by simp
  next
    case (Cons c r)
    show ?thesis
    proof (cases r)
      case Nil
      show ?thesis
      proof (cases ws)
        case Nil
        then show ?thesis using Cons \<open>r = []\<close> by auto
      next
        case (Cons w ws')
        then have "is_space w" using ws by simp
        then have "w \<noteq> CHR ''.''" using not_space_brace by auto
        then show ?thesis using Cons \<open>dropWhile is_space a = c # r\<close> \<open>r = []\<close> by simp
      qed
    next
      case (Cons e r')
      with n \<open>dropWhile is_space a = c # r\<close> show ?thesis by (auto split: if_splits)
    qed
  qed
  then show ?thesis unfolding m_pragma_def d by simp
qed

lemma re_sub_pragma_seg:
  assumes "\<not> has_sub ''{.'' a" "a = [] \<or> \<not> is_space (last a)"
          "list_all is_space ws" "\<not> has_sub ''.}'' body"
  shows "re_sub m_pragma (a @ ws @ ''{.'' @ body @ ''.}'' @ rest) = a @ re_sub m_pragma rest"
  using assms(1,2)
proof (induction a)
  case Nil
  have m: "m_pragma (ws @ ''{.'' @ body @ ''.}'' @ rest) = Some ([], rest)"
    using assms(3,4) by (rule m_pragma_block)
  have "re_sub m_pragma (ws @ ''{.'' @ body @ ''.}'' @ rest) = [] @ re_sub m_pragma rest"
    using m by (rule re_sub_match) simp
  then show ?case by simp
next
  case (Cons c a)
  have l: "\<not> is_space (last (c # a))" using Cons.prems(2) by simp
  have "m_pragma ((c # a) @ ws @ ''{.'' @ body @ ''.}'' @ rest) = None"
    by (rule m_pragma_inside) (use Cons.prems l assms(3) in simp_all)
  moreover have "re_sub m_pragma (a @ ws @ ''{.'' @ body @ ''.}'' @ rest) = a @ re_sub m_pragma rest"
  proof (rule Cons.IH)
    show "\<not> has_sub ''{.'' a" using Cons.prems(1) by simp
    show "a = [] \<or> \<not> is_space (last a)" using l by (cases a) simp_all
  qed
  ultimately show ?case by simp
qed


lemma re_sub_pragma_segs:
  "list_all ok_seg segs \<Longrightarrow> \<not> has_match m_block tail \<Longrightarrow>
     re_sub m_pragma (render_segs segs tail) = kept_segs segs tail"
proof (induction segs)
  case Nil
  then show ?case by (simp add: render_segs_def kept_segs_def re_sub_pragma_tail)
next
  case (Cons sg segs)
  obtain a ws body where sg: "sg = (a, ws, body)" by (cases sg) auto
  have ok: "\<not> has_sub ''{.'' a" "a = [] \<or> \<not> is_space (last a)"
          "list_all is_space ws" "\<not> has_sub ''.}'' body"
    using Cons.prems(1) by (simp_all add: sg ok_seg_def)
  have "render_segs (sg # segs) tail = a @ ws @ ''{.'' @ body @ ''.}'' @ render_segs segs tail"
    by (simp add: render_segs_def sg)
  then have "re_sub m_pragma (render_segs (sg # segs) tail) = a @ re_sub m_pragma (render_segs segs tail)"
    using re_sub_pragma_seg [OF ok] by simp
  also have "\<dots> = a @ kept_segs segs tail" using Cons by simp
  finally show ?case by (simp add: kept_segs_def sg)
qed

lemma rev_split: "l = rev (dropWhile P (rev l)) @ rev (takeWhile P (rev l))"
proof -
  have "rev (takeWhile P (rev l) @ dropWhile P (rev l)) = rev (rev l)"
    by (simp only: takeWhile_dropWhile_id)
  then show ?thesis by (simp only: rev_append rev_rev_ident)
qed

lemma first_block:
  assumes "has_match m_block s"
  shows "\<exists>a ws body rest. s = a @ ws @ ''{.'' @ body @ ''.}'' @ rest \<and> ok_seg (a, ws, body)"
proof -
  from first_match [OF assms] obtain p v where
    pv: "s = p @ v" "m_block v \<noteq> None"
        "\<forall>p1 p2. p = p1 @ p2 \<and> p2 \<noteq> [] \<longrightarrow> m_block (p2 @ v) = None"
    by blast
  from m_block_Some [OF pv(2)] obtain body rest where
    v: "v = ''{.'' @ body @ ''.}'' @ rest" and body: "\<not> has_sub ''.}'' body"
    by blast
  have p: "\<not> has_sub ''{.'' p"
  proof
    assume "has_sub ''{.'' p"
    then obtain u w where uw: "p = u @ ''{.'' @ w" using has_sub_iff by blast
    have "w @ v = (w @ ''{.'' @ body) @ ''.}'' @ rest" using v by simp
    then have "has_sub ''.}'' (w @ v)" using has_sub_iff by blast
    then have "m_block (''{.'' @ (w @ v)) \<noteq> None" by (rule m_block_found)
    moreover have "m_block ((''{.'' @ w) @ v) = None" using pv(3) uw by blast
    ultimately show False by simp
  qed
  let ?a = "rev (dropWhile is_space (rev p))" and ?ws = "rev (takeWhile is_space (rev p))"
  have split: "p = ?a @ ?ws" by (rule rev_split)
  have 1: "\<not> has_sub ''{.'' ?a" using p split has_sub_prefix by metis
  have 2: "?a = [] \<or> \<not> is_space (last ?a)"
  proof (cases "dropWhile is_space (rev p) = []")
    case True
    then show ?thesis by simp
  next
    case False
    then have "\<not> is_space (hd (dropWhile is_space (rev p)))" by (rule hd_dropWhile)
    then show ?thesis using False by (simp add: last_rev)
  qed
  have 3: "list_all is_space ?ws"
    by (simp add: list_all_iff) (metis set_takeWhileD)
  have "s = ?a @ ?ws @ ''{.'' @ body @ ''.}'' @ rest"
    using pv(1) v split by (metis append_assoc)
  moreover have "ok_seg (?a, ?ws, body)" using 1 2 3 body by (simp add: ok_seg_def)
  ultimately show ?thesis by blast
qed

lemma segments_exist:
  "\<exists>segs tail. s = render_segs segs tail \<and> list_all ok_seg segs \<and> \<not> has_match m_block tail"
proof (induction s rule: length_induct)
  case (1 s)
  show ?case
  proof (cases "has_match m_block s")
    case False
    then have "s = render_segs [] s \<and> list_all ok_seg [] \<and> \<not> has_match m_block s"
      by (simp add: render_segs_def)
    then show ?thesis by blast
  next
    case True
    from first_block [OF True] obtain a ws body rest where
      s: "s = a @ ws @ ''{.'' @ body @ ''.}'' @ rest" and ok: "ok_seg (a, ws, body)"
      by blast
    have "length rest < length s" using s by simp
    with 1 obtain segs tail where
      r: "rest = render_segs segs tail" "list_all ok_seg segs" "\<not> has_match m_block tail"
      by blast
    have "s = render_segs ((a, ws, body) # segs) tail" using s r(1) by (simp add: render_segs_def)
    moreover have "list_all ok_seg ((a, ws, body) # segs)" using ok r(2) by simp
    ultimately show ?thesis using r(3) by blast
  qed
qed

text \<open>
  C5, as stated, fails: the pattern starts with \<open>\s*\<close>, so the whitespace in front of a
  block goes with it, which is text outside the block.
\<close>

theorem clean_code_counterexample:
  "clean_code ''f() {.inline.} = 1'' = ''f() = 1'' \<and>
   clean_spec ''f() {.inline.} = 1'' = ''f()  = 1''"
  by code_simp

text \<open>
  C5, amended.  Every input is cut in one way into its complete blocks, each from \<open>{.\<close>
  to the first \<open>.}\<close> after it, the text between them, and a tail without a complete
  block (an opener that is never closed stays in the tail).  The cleaner removes every
  block together with the whitespace directly in front of it, leaves the rest as it is,
  and trims the result.
\<close>

theorem clean_code_removes_blocks:
  "(list_all ok_seg segs \<and> \<not> has_match m_block tail \<longrightarrow>
      clean_code (render_segs segs tail) = strip (kept_segs segs tail)) \<and>
   (\<exists>segs tail. code = render_segs segs tail \<and> list_all ok_seg segs \<and>
                 \<not> has_match m_block tail \<and> clean_code code = strip (kept_segs segs tail))"
proof
  show "list_all ok_seg segs \<and> \<not> has_match m_block tail \<longrightarrow>
      clean_code (render_segs segs tail) = strip (kept_segs segs tail)"
    by (simp add: clean_code_def re_sub_pragma_segs)
  obtain sg tl where "code = render_segs sg tl" "list_all ok_seg sg" "\<not> has_match m_block tl"
    using segments_exist by blast
  moreover from this have "clean_code code = strip (kept_segs sg tl)"
    by (simp add: clean_code_def re_sub_pragma_segs)
  ultimately show "\<exists>segs tail. code = render_segs segs tail \<and> list_all ok_seg segs \<and>
                 \<not> has_match m_block tail \<and> clean_code code = strip (kept_segs segs tail)"
    by blast
qed

theorem clean_code_removes_blocks_witness:
  "clean_code (''proc f()'' @ [CHR '' '', NL, CHR '' ''] @ ''{.'' @ ''inline, '' @ [NL] @ '' raises: [].'' @ ''.}''
               @ '' ='' @ '' '' @ ''{.'' @ ''x'' @ ''.}'' @ '' discard  {.y '')
     = ''proc f() = discard  {.y''"
proof -
  let ?segs = "[(''proc f()'', [CHR '' '', NL, CHR '' ''], ''inline, '' @ [NL] @ '' raises: [].''),
                ('' ='', '' '', ''x'')]"
  have "list_all ok_seg ?segs \<and> \<not> has_match m_block '' discard  {.y ''" by code_simp
  with clean_code_removes_blocks [of ?segs "'' discard  {.y ''"]
  have "clean_code (render_segs ?segs '' discard  {.y '') = strip (kept_segs ?segs '' discard  {.y '')"
    by blast
  moreover have "strip (kept_segs ?segs '' discard  {.y '') = ''proc f() = discard  {.y''" by code_simp
  ultimately show ?thesis by (simp add: render_segs_def)
qed

section \<open>The HTML conversion on text without markup\<close>

text \<open>Where a tag pattern of the conversion matches, the pattern \<open><[^>]+>\<close> matches.\<close>

lemma upto_gt_Some: "upto_gt s = Some (g, r) \<Longrightarrow> s = g @ CHR ''>'' # r \<and> CHR ''>'' \<notin> set g"
  by (induction s arbitrary: g) (auto split: if_splits option.splits)

lemma upto_gt_found: "CHR ''>'' \<in> set s \<Longrightarrow> upto_gt s \<noteq> None"
  by (induction s) (auto split: option.splits)

lemma m_tag_iff:
  "m_tag v \<noteq> None \<longleftrightarrow> (\<exists>c r. v = CHR ''<'' # c # r \<and> c \<noteq> CHR ''>'' \<and> CHR ''>'' \<in> set r)"
proof
  assume "m_tag v \<noteq> None"
  then obtain r1 g r2 where 1: "lit ''<'' v = Some r1" and 2: "upto_gt r1 = Some (g, r2)" and 3: "g \<noteq> []"
    by (auto simp: m_tag_def split: option.splits if_splits)
  have v: "v = CHR ''<'' # r1" using 1 lit_Some by fastforce
  from upto_gt_Some [OF 2] have r1: "r1 = g @ CHR ''>'' # r2" "CHR ''>'' \<notin> set g" by auto
  obtain c g' where g: "g = c # g'" using 3 by (cases g) auto
  have "v = CHR ''<'' # c # (g' @ CHR ''>'' # r2) \<and> c \<noteq> CHR ''>'' \<and> CHR ''>'' \<in> set (g' @ CHR ''>'' # r2)"
    using v r1 g by auto
  then show "\<exists>c r. v = CHR ''<'' # c # r \<and> c \<noteq> CHR ''>'' \<and> CHR ''>'' \<in> set r" by blast
next
  assume "\<exists>c r. v = CHR ''<'' # c # r \<and> c \<noteq> CHR ''>'' \<and> CHR ''>'' \<in> set r"
  then obtain c r where v: "v = CHR ''<'' # c # r" "c \<noteq> CHR ''>''" "CHR ''>'' \<in> set r" by blast
  from upto_gt_found [OF v(3)] obtain g r2 where "upto_gt r = Some (g, r2)" by auto
  then show "m_tag v \<noteq> None" using v by (simp add: m_tag_def)
qed

lemma tag_open:
  assumes "v = CHR ''<'' # c # ps @ r" "c \<noteq> CHR ''>''" "CHR ''>'' \<in> set ps \<or> CHR ''>'' \<in> set r"
  shows "m_tag v \<noteq> None"
proof -
  have "v = CHR ''<'' # c # (ps @ r) \<and> c \<noteq> CHR ''>'' \<and> CHR ''>'' \<in> set (ps @ r)"
    using assms by auto
  then show ?thesis using m_tag_iff by blast
qed

lemma m_tt_tag: "m_tt v \<noteq> None \<Longrightarrow> m_tag v \<noteq> None"
proof -
  assume "m_tt v \<noteq> None"
  then obtain r1 a r2 where 1: "lit ''<tt'' v = Some r1" and 2: "upto_gt r1 = Some (a, r2)"
    by (auto simp: m_tt_def split: option.splits)
  have "v = ''<tt'' @ r1" using 1 lit_Some by blast
  then have "v = CHR ''<'' # CHR ''t'' # ''t'' @ r1" by simp
  moreover have "CHR ''>'' \<in> set r1" using upto_gt_Some [OF 2] by auto
  ultimately show ?thesis by (intro tag_open [of v "CHR ''t''" "''t''" r1]) auto
qed

lemma m_ul_tag: "m_ul v \<noteq> None \<Longrightarrow> m_tag v \<noteq> None"
proof -
  assume "m_ul v \<noteq> None"
  then obtain r1 a r2 where 1: "lit ''<ul'' v = Some r1" and 2: "upto_gt r1 = Some (a, r2)"
    by (auto simp: m_ul_def split: option.splits)
  have "v = ''<ul'' @ r1" using 1 lit_Some by blast
  then have "v = CHR ''<'' # CHR ''u'' # ''l'' @ r1" by simp
  moreover have "CHR ''>'' \<in> set r1" using upto_gt_Some [OF 2] by auto
  ultimately show ?thesis by (intro tag_open [of v "CHR ''u''" "''l''" r1]) auto
qed

lemma lit_tag: "tag_literal p \<Longrightarrow> lit p v \<noteq> None \<Longrightarrow> m_tag v \<noteq> None"
proof -
  assume t: "tag_literal p" and "lit p v \<noteq> None"
  then obtain r where v: "v = p @ r" using lit_Some by fastforce
  from t obtain c ps where p: "p = CHR ''<'' # c # ps" "c \<noteq> CHR ''>''" "CHR ''>'' \<in> set ps"
    by (auto simp: tag_literal_def split: list.splits)
  show ?thesis using v p by (intro tag_open [of v c ps r]) auto
qed

lemma lit_alt_tag: "list_all tag_literal ps \<Longrightarrow> lit_alt ps v \<noteq> None \<Longrightarrow> m_tag v \<noteq> None"
proof (induction ps)
  case Nil
  then show ?case by simp
next
  case (Cons p ps)
  show ?case
  proof (cases "lit p v")
    case None
    with Cons show ?thesis by simp
  next
    case (Some r)
    then show ?thesis using Cons.prems(1) lit_tag [of p v] by simp
  qed
qed

lemma m_pair_tag:
  "list_all tag_literal opens \<Longrightarrow> m_pair opens d closes repl v \<noteq> None \<Longrightarrow> m_tag v \<noteq> None"
  using lit_alt_tag [of opens v] by (auto simp: m_pair_def split: option.splits)

lemma m_lit_tag: "tag_literal p \<Longrightarrow> m_lit p new v \<noteq> None \<Longrightarrow> m_tag v \<noteq> None"
  using lit_tag [of p v] by (auto simp: m_lit_def split: option.splits)

lemma has_match_mono:
  "(\<And>v. m v \<noteq> None \<Longrightarrow> m' v \<noteq> None) \<Longrightarrow> has_match m s \<Longrightarrow> has_match m' s"
  by (induction s) auto

lemma no_tag_id:
  assumes "\<not> has_tag x" and "\<And>v. m v \<noteq> None \<Longrightarrow> m_tag v \<noteq> None"
  shows "re_sub m x = x"
proof (rule re_sub_no_match)
  show "\<not> has_match m x"
    using assms(1) has_match_mono [of m m_tag x, OF assms(2)] by (auto simp: has_tag_def)
qed

lemma no_entity_id:
  assumes "\<not> has_sub e x"
  shows "replace e new x = x"
  unfolding replace_def
proof (rule re_sub_id)
  fix u v assume x: "x = u @ v"
  show "m_lit e new v = None"
  proof (cases "lit e v")
    case None
    then show ?thesis by (simp add: m_lit_def)
  next
    case (Some r)
    then have "v = e @ r" using lit_Some by blast
    with x have "x = u @ e @ r" by simp
    with assms show ?thesis using has_sub_iff by blast
  qed
qed


lemma html_to_rst_plain:
  assumes t: "\<not> has_tag x" and e: "\<not> has_entity x"
  shows "html_to_rst x = strip (re_sub m_nl3 x)"
proof -
  have 1: "re_sub m_tt x = x" using t m_tt_tag by (rule no_tag_id)
  have 2: "re_sub (m_pair op d cl repl) x = x" if "list_all tag_literal op" for op d cl repl
    using t m_pair_tag [OF that] by (rule no_tag_id)
  have 3: "re_sub m_ul x = x" using t m_ul_tag by (rule no_tag_id)
  have 4: "re_sub (m_lit ''</ul>'' new) x = x" for new
  proof -
    have "tag_literal ''</ul>''" by (simp add: tag_literal_def)
    then show ?thesis using t m_lit_tag by (intro no_tag_id) blast+
  qed
  have 5: "re_sub m_tag x = x" using t by (rule no_tag_id)
  have ne: "\<not> has_sub ''&lt;'' x" "\<not> has_sub ''&gt;'' x" "\<not> has_sub ''&amp;'' x"
           "\<not> has_sub ''&quot;'' x" "\<not> has_sub ''&#39;'' x" "\<not> has_sub ''&nbsp;'' x"
    using e by (simp_all add: has_entity_def ENTITIES_def)
  have 6: "replace ''&lt;'' new x = x" "replace ''&gt;'' new x = x" "replace ''&amp;'' new x = x"
          "replace ''&quot;'' new x = x" "replace ''&#39;'' new x = x" "replace ''&nbsp;'' new x = x"
    for new
    by (rule no_entity_id, rule ne)+
  show ?thesis
  proof (cases "x = []")
    case True
    then show ?thesis by (simp add: html_to_rst_def strip_def)
  next
    case False
    have p: "re_sub (m_pair [''<p>''] d cl repl) x = x" for d cl repl
      by (rule 2) (simp add: tag_literal_def)
    have b: "re_sub (m_pair [''<b>'', ''<strong>''] d cl repl) x = x" for d cl repl
      by (rule 2) (simp add: tag_literal_def)
    have em: "re_sub (m_pair [''<em>'', ''<i>''] d cl repl) x = x" for d cl repl
      by (rule 2) (simp add: tag_literal_def)
    have li: "re_sub (m_pair [''<li>''] d cl repl) x = x" for d cl repl
      by (rule 2) (simp add: tag_literal_def)
    show ?thesis
      unfolding html_to_rst_def Let_def
      by (simp only: False if_False 1 p b em 3 4 li 5 6)
  qed
qed

text \<open>
  Collapsing runs of newlines: a run of three or more becomes two, shorter runs stay,
  no run of three is left, and neither a tag nor an entity reference comes into being.
\<close>

lemma nl3_run1: "r = [] \<or> hd r \<noteq> NL \<Longrightarrow> re_sub m_nl3 (NL # r) = NL # re_sub m_nl3 r"
  by (cases r) (auto simp: m_nl3_def)

lemma nl3_run2:
  assumes r: "r = [] \<or> hd r \<noteq> NL"
  shows "re_sub m_nl3 (NL # NL # r) = NL # NL # re_sub m_nl3 r"
proof -
  have "m_nl3 (NL # NL # r) = None" using r by (cases r) (auto simp: m_nl3_def)
  then have "re_sub m_nl3 (NL # NL # r) = NL # re_sub m_nl3 (NL # r)" by simp
  with nl3_run1 [OF r] show ?thesis by simp
qed

lemma dropWhile_run:
  "r = [] \<or> hd r \<noteq> NL \<Longrightarrow> dropWhile (\<lambda>c. c = NL) (replicate k NL @ r) = r"
proof (induction k)
  case 0
  then show ?case by (cases r) auto
next
  case (Suc k)
  then show ?case by simp
qed

lemma nl3_run3:
  assumes r: "r = [] \<or> hd r \<noteq> NL"
  shows "re_sub m_nl3 (NL # NL # NL # replicate k NL @ r) = NL # NL # re_sub m_nl3 r"
proof -
  have "m_nl3 (NL # NL # NL # replicate k NL @ r) = Some ([NL, NL], r)"
    by (simp add: m_nl3_def dropWhile_run [OF r])
  then have "re_sub m_nl3 (NL # NL # NL # replicate k NL @ r) = [NL, NL] @ re_sub m_nl3 r"
    by (rule re_sub_match) simp
  then show ?thesis by simp
qed

lemma nl3_run:
  assumes r: "r = [] \<or> hd r \<noteq> NL"
  shows "re_sub m_nl3 (replicate k NL @ r) = replicate (min k 2) NL @ re_sub m_nl3 r"
proof (cases k)
  case 0
  then show ?thesis by simp
next
  case (Suc k1)
  show ?thesis
  proof (cases k1)
    case 0
    with Suc show ?thesis using nl3_run1 [OF r] by simp
  next
    case (Suc k2)
    note k1 = this
    show ?thesis
    proof (cases k2)
      case 0
      with k1 \<open>k = Suc k1\<close> show ?thesis using nl3_run2 [OF r] by (simp add: numeral_2_eq_2)
    next
      case (Suc k3)
      with k1 \<open>k = Suc k1\<close> show ?thesis using nl3_run3 [OF r, of k3] by (simp add: numeral_2_eq_2)
    qed
  qed
qed

lemma split_run:
  "\<exists>k r. s = replicate k NL @ r \<and> (r = [] \<or> hd r \<noteq> NL)"
proof (induction s)
  case Nil
  show ?case by simp
next
  case (Cons c cs)
  show ?case
  proof (cases "c = NL")
    case False
    then have "c # cs = replicate 0 NL @ (c # cs) \<and> (c # cs = [] \<or> hd (c # cs) \<noteq> NL)" by simp
    then show ?thesis by blast
  next
    case True
    from Cons obtain k r where "cs = replicate k NL @ r" "r = [] \<or> hd r \<noteq> NL" by blast
    with True have "c # cs = replicate (Suc k) NL @ r \<and> (r = [] \<or> hd r \<noteq> NL)" by simp
    then show ?thesis by blast
  qed
qed

lemma no3_run:
  assumes t: "t = [] \<or> hd t \<noteq> NL" and n: "\<not> has_sub [NL, NL, NL] t"
  shows "\<not> has_sub [NL, NL, NL] (NL # t)" and "\<not> has_sub [NL, NL, NL] (NL # NL # t)"
proof -
  show 1: "\<not> has_sub [NL, NL, NL] (NL # t)" using t n by (cases t) auto
  show "\<not> has_sub [NL, NL, NL] (NL # NL # t)" using 1 t by (cases t) auto
qed

lemma collapse_props:
  "\<not> has_sub [NL, NL, NL] (re_sub m_nl3 s) \<and> set (re_sub m_nl3 s) \<subseteq> set s \<and>
   (s = [] \<or> hd s \<noteq> NL \<longrightarrow> re_sub m_nl3 s = [] \<or> hd (re_sub m_nl3 s) \<noteq> NL)"
proof (induction s rule: length_induct)
  case (1 s)
  show ?case
  proof (cases s)
    case Nil
    then show ?thesis by simp
  next
    case (Cons c cs)
    show ?thesis
    proof (cases "c = NL")
      case False
      have ih: "\<not> has_sub [NL, NL, NL] (re_sub m_nl3 cs) \<and> set (re_sub m_nl3 cs) \<subseteq> set cs"
        using 1 Cons by simp
      have "re_sub m_nl3 s = c # re_sub m_nl3 cs"
        using False Cons by (simp add: m_nl3_def)
      with ih False Cons show ?thesis by auto
    next
      case True
      obtain k r where kr: "s = replicate k NL @ r" "r = [] \<or> hd r \<noteq> NL"
        using split_run by blast
      have k: "k \<noteq> 0" using kr True Cons by (cases k) auto
      then have len: "length r < length s" using kr by simp
      have ih: "\<not> has_sub [NL, NL, NL] (re_sub m_nl3 r)" "set (re_sub m_nl3 r) \<subseteq> set r"
               "re_sub m_nl3 r = [] \<or> hd (re_sub m_nl3 r) \<noteq> NL"
        using 1 len kr(2) by blast+
      have eq: "re_sub m_nl3 s = replicate (min k 2) NL @ re_sub m_nl3 r"
        unfolding kr(1) using kr(2) by (rule nl3_run)
      have "min k 2 = 1 \<or> min k 2 = 2" using k by (auto simp: min_def)
      then have no3: "\<not> has_sub [NL, NL, NL] (re_sub m_nl3 s)"
        using no3_run [OF ih(3) ih(1)] eq by (auto simp: numeral_2_eq_2)
      have "set (re_sub m_nl3 s) \<subseteq> set s"
        using eq ih(2) kr(1) k by auto
      with no3 True Cons show ?thesis by simp
    qed
  qed
qed

lemma collapse_id: "\<not> has_sub [NL, NL, NL] s \<Longrightarrow> re_sub m_nl3 s = s"
proof (rule re_sub_id)
  fix u v assume n: "\<not> has_sub [NL, NL, NL] s" and s: "s = u @ v"
  show "m_nl3 v = None"
  proof (cases "lit [NL, NL, NL] v")
    case None
    then show ?thesis by (simp add: m_nl3_def)
  next
    case (Some r)
    then have "v = [NL, NL, NL] @ r" using lit_Some by blast
    with s have "s = u @ [NL, NL, NL] @ r" by simp
    with n show ?thesis using has_sub_iff by blast
  qed
qed


lemma nl3_other: "c \<noteq> NL \<Longrightarrow> re_sub m_nl3 (c # cs) = c # re_sub m_nl3 cs"
  by (simp add: m_nl3_def)

lemma collapse_NL: "\<exists>t. re_sub m_nl3 (NL # cs) = NL # t"
proof -
  obtain k r where kr: "NL # cs = replicate k NL @ r" "r = [] \<or> hd r \<noteq> NL"
    using split_run by blast
  have "k \<noteq> 0" using kr by (cases k) auto
  then obtain j where j: "min k 2 = Suc j"
    by (cases "min k 2") (auto simp: min_def split: if_splits)
  have "re_sub m_nl3 (NL # cs) = replicate (min k 2) NL @ re_sub m_nl3 r"
    unfolding kr(1) using kr(2) by (rule nl3_run)
  then show ?thesis by (simp add: j)
qed

lemma collapse_takeWhile:
  "takeWhile (\<lambda>c. c \<noteq> NL) (re_sub m_nl3 t) = takeWhile (\<lambda>c. c \<noteq> NL) t"
proof (induction t)
  case Nil
  show ?case by simp
next
  case (Cons c cs)
  show ?case
  proof (cases "c = NL")
    case True
    obtain t' where "re_sub m_nl3 (NL # cs) = NL # t'" using collapse_NL by blast
    with True show ?thesis by simp
  next
    case False
    with Cons show ?thesis by (simp add: nl3_other del: re_sub.simps)
  qed
qed

lemma collapse_hd: "t \<noteq> [] \<Longrightarrow> re_sub m_nl3 t \<noteq> [] \<and> hd (re_sub m_nl3 t) = hd t"
proof (cases t)
  case Nil
  assume "t \<noteq> []"
  with Nil show ?thesis by simp
next
  case (Cons c cs)
  show ?thesis
  proof (cases "c = NL")
    case True
    obtain t' where "re_sub m_nl3 (NL # cs) = NL # t'" using collapse_NL by blast
    with True Cons show ?thesis by simp
  next
    case False
    with Cons show ?thesis by (simp add: nl3_other del: re_sub.simps)
  qed
qed

lemma has_match_NL_run:
  "(\<And>t. m (NL # t) = None) \<Longrightarrow> has_match m (replicate j NL @ t) = has_match m t"
  by (induction j) simp_all

lemma has_match_suffix: "has_match m v \<Longrightarrow> has_match m (u @ v)"
  by (induction u) simp_all

lemma has_match_collapse:
  assumes a: "\<And>t. m (NL # t) = None"
    and b: "\<And>c cs. c \<noteq> NL \<Longrightarrow> m (c # re_sub m_nl3 cs) \<noteq> None \<Longrightarrow> m (c # cs) \<noteq> None"
  shows "has_match m (re_sub m_nl3 s) \<Longrightarrow> has_match m s"
proof (induction s rule: length_induct)
  case (1 s)
  show ?case
  proof (cases s)
    case Nil
    with 1 show ?thesis by simp
  next
    case (Cons c cs)
    show ?thesis
    proof (cases "c = NL")
      case False
      have "re_sub m_nl3 s = c # re_sub m_nl3 cs"
        using False Cons by (simp add: nl3_other del: re_sub.simps)
      with 1(2) consider "m (c # re_sub m_nl3 cs) \<noteq> None" | "has_match m (re_sub m_nl3 cs)"
        by auto
      then show ?thesis
      proof cases
        case 1
        then show ?thesis using b [OF False] Cons by simp
      next
        case 2
        then have "has_match m cs" using "1.IH" Cons by simp
        then show ?thesis using Cons by simp
      qed
    next
      case True
      obtain k r where kr: "s = replicate k NL @ r" "r = [] \<or> hd r \<noteq> NL"
        using split_run by blast
      have k: "k \<noteq> 0" using kr True Cons by (cases k) auto
      then have len: "length r < length s" using kr by simp
      have "re_sub m_nl3 s = replicate (min k 2) NL @ re_sub m_nl3 r"
        unfolding kr(1) using kr(2) by (rule nl3_run)
      with 1(2) have "has_match m (re_sub m_nl3 r)" using has_match_NL_run [of m, OF a] by simp
      then have "has_match m r" using "1.IH" len by blast
      then show ?thesis unfolding kr(1) by (rule has_match_suffix)
    qed
  qed
qed

lemma has_tag_collapse: "has_tag (re_sub m_nl3 s) \<Longrightarrow> has_tag s"
  unfolding has_tag_def
proof (rule has_match_collapse)
  fix t show "m_tag (NL # t) = None" by (simp add: m_tag_def)
next
  fix c cs assume c: "c \<noteq> NL" and m: "m_tag (c # re_sub m_nl3 cs) \<noteq> None"
  from m obtain d r where dr: "c # re_sub m_nl3 cs = CHR ''<'' # d # r" "d \<noteq> CHR ''>''" "CHR ''>'' \<in> set r"
    using m_tag_iff by blast
  then have cc: "c = CHR ''<''" and col: "re_sub m_nl3 cs = d # r" by auto
  have ne: "cs \<noteq> []" using col by auto
  from collapse_hd [OF ne] col have hd: "hd cs = d" by simp
  have "CHR ''>'' \<in> set (re_sub m_nl3 cs)" using col dr(3) by simp
  then have "CHR ''>'' \<in> set cs" using collapse_props by blast
  with ne hd dr(2) have "CHR ''>'' \<in> set (tl cs)" by (cases cs) auto
  with ne hd dr(2) cc have "c # cs = CHR ''<'' # d # tl cs \<and> d \<noteq> CHR ''>'' \<and> CHR ''>'' \<in> set (tl cs)"
    by (cases cs) auto
  then show "m_tag (c # cs) \<noteq> None" using m_tag_iff by blast
qed

lemma has_sub_match: "e \<noteq> [] \<Longrightarrow> has_sub e s = has_match (m_lit e new) s"
  by (induction s) (auto simp: m_lit_def split: option.splits)

lemma has_lit_collapse:
  assumes e: "e \<noteq> []" "NL \<notin> set e"
  shows "has_match (m_lit e []) (re_sub m_nl3 s) \<Longrightarrow> has_match (m_lit e []) s"
proof (rule has_match_collapse)
  fix t show "m_lit e [] (NL # t) = None" using e by (cases e) (auto simp: m_lit_def)
next
  fix c cs assume c: "c \<noteq> NL" and m: "m_lit e [] (c # re_sub m_nl3 cs) \<noteq> None"
  let ?P = "\<lambda>c. c \<noteq> NL"
  from m obtain r where "lit e (c # re_sub m_nl3 cs) = Some r"
    by (cases "lit e (c # re_sub m_nl3 cs)") (simp_all add: m_lit_def del: re_sub.simps)
  then have r: "c # re_sub m_nl3 cs = e @ r" by (simp only: lit_Some)
  have "takeWhile ?P (c # cs) = takeWhile ?P (c # re_sub m_nl3 cs)"
    using c by (simp add: collapse_takeWhile del: re_sub.simps)
  also have "\<dots> = takeWhile ?P (e @ r)" by (simp only: r)
  also have "\<dots> = e @ takeWhile ?P r" using e(2) by (intro takeWhile_append2) auto
  finally have "takeWhile ?P (c # cs) = e @ takeWhile ?P r" .
  moreover have "c # cs = takeWhile ?P (c # cs) @ dropWhile ?P (c # cs)"
    by (simp only: takeWhile_dropWhile_id)
  ultimately have "c # cs = e @ (takeWhile ?P r @ dropWhile ?P (c # cs))"
    by (simp only: append_assoc)
  then have "lit e (c # cs) = Some (takeWhile ?P r @ dropWhile ?P (c # cs))"
    by (simp only: lit_Some)
  then show "m_lit e [] (c # cs) \<noteq> None" by (simp only: m_lit_def option.case option.distinct not_False_eq_True)
qed

lemma has_sub_collapse:
  assumes e: "e \<noteq> []" "NL \<notin> set e" and h: "has_sub e (re_sub m_nl3 s)"
  shows "has_sub e s"
proof -
  have "has_match (m_lit e []) (re_sub m_nl3 s)"
    using h by (simp only: has_sub_match [OF e(1), of _ "[]"])
  then have "has_match (m_lit e []) s" by (rule has_lit_collapse [OF e])
  then show ?thesis by (simp only: has_sub_match [OF e(1), of _ "[]"])
qed

lemma has_tag_infix: "has_tag y \<Longrightarrow> has_tag (u @ y @ v)"
proof -
  assume "has_tag y"
  then have "\<exists>a w. y = a @ w \<and> w \<noteq> [] \<and> m_tag w \<noteq> None"
    by (simp only: has_tag_def has_match_iff)
  then obtain a w where y: "y = a @ w" and mw: "m_tag w \<noteq> None" by blast
  from mw obtain c r where w: "w = CHR ''<'' # c # r" "c \<noteq> CHR ''>''" "CHR ''>'' \<in> set r"
    by (auto simp only: m_tag_iff)
  have "w @ v = CHR ''<'' # c # (r @ v) \<and> c \<noteq> CHR ''>'' \<and> CHR ''>'' \<in> set (r @ v)"
    using w by simp
  then have "\<exists>c' r'. w @ v = CHR ''<'' # c' # r' \<and> c' \<noteq> CHR ''>'' \<and> CHR ''>'' \<in> set r'"
    by (intro exI)
  then have 1: "m_tag (w @ v) \<noteq> None" by (simp only: m_tag_iff)
  have 2: "u @ y @ v = (u @ a) @ (w @ v)" using y by simp
  have 3: "w @ v \<noteq> []" using w by simp
  have "\<exists>p q. u @ y @ v = p @ q \<and> q \<noteq> [] \<and> m_tag q \<noteq> None"
    using 1 2 3 by (intro exI conjI)
  then show ?thesis by (simp only: has_tag_def has_match_iff)
qed

lemma has_sub_infix: "has_sub e y \<Longrightarrow> has_sub e (u @ y @ v)"
proof -
  assume "has_sub e y"
  then have "\<exists>a b. y = a @ e @ b" by (simp only: has_sub_iff)
  then obtain a b where "y = a @ e @ b" by blast
  then have "u @ y @ v = (u @ a) @ e @ (b @ v)" by simp
  then have "\<exists>p q. u @ y @ v = p @ e @ q" by (intro exI)
  then show ?thesis by (simp only: has_sub_iff)
qed

lemma entity_props: "e \<in> set ENTITIES \<Longrightarrow> e \<noteq> [] \<and> NL \<notin> set e"
  by (auto simp: ENTITIES_def)

lemma entity_collapse: "has_entity (re_sub m_nl3 s) \<Longrightarrow> has_entity s"
proof -
  assume "has_entity (re_sub m_nl3 s)"
  then obtain e where e: "e \<in> set ENTITIES" "has_sub e (re_sub m_nl3 s)"
    by (auto simp only: has_entity_def list_ex_iff)
  from entity_props [OF e(1)] have "e \<noteq> []" "NL \<notin> set e" by blast+
  then have "has_sub e s" using e(2) by (rule has_sub_collapse)
  with e(1) show ?thesis by (auto simp only: has_entity_def list_ex_iff)
qed

lemma entity_infix: "has_entity y \<Longrightarrow> has_entity (u @ y @ v)"
proof -
  assume "has_entity y"
  then obtain e where e: "e \<in> set ENTITIES" "has_sub e y"
    by (auto simp only: has_entity_def list_ex_iff)
  from e(2) have "has_sub e (u @ y @ v)" by (rule has_sub_infix)
  with e(1) show ?thesis by (auto simp only: has_entity_def list_ex_iff)
qed


lemma strip_infix: "\<exists>u v. s = u @ strip s @ v"
proof -
  let ?t = "dropWhile is_space s"
  have "s = takeWhile is_space s @ ?t" by simp
  also have "?t = strip s @ rev (takeWhile is_space (rev ?t))"
    unfolding strip_def by (rule rev_split)
  finally show ?thesis by blast
qed

lemma strip_strip: "strip (strip s) = strip s"
proof (cases "strip s = []")
  case True
  have "strip [] = []" by (simp add: strip_def)
  with True show ?thesis by simp
next
  case False
  obtain c cs where c: "strip s = c # cs" using False by (cases "strip s") auto
  have h: "\<not> is_space c" using strip_hd [OF False] c by simp
  have l: "\<not> is_space (last (c # cs))" using strip_last [OF False] c by simp
  have 1: "dropWhile is_space (c # cs) = c # cs" using h by simp
  have "rev (c # cs) \<noteq> []" by simp
  moreover have "hd (rev (c # cs)) = last (c # cs)" by (rule hd_rev)
  ultimately have 2: "dropWhile is_space (rev (c # cs)) = rev (c # cs)"
    using l by (cases "rev (c # cs)") auto
  have "strip (c # cs) = c # cs"
    unfolding strip_def 1 2 by simp
  with c show ?thesis by simp
qed


text \<open>
  C4, as stated, fails: \<open>&amp;lt;\<close> has no tag, its conversion is \<open>&lt;\<close>, and
  converting that again gives \<open><\<close>.
\<close>

theorem html_to_rst_not_idempotent:
  "\<not> has_tag ''&amp;lt;'' \<and>
   html_to_rst ''&amp;lt;'' = ''&lt;'' \<and>
   html_to_rst (html_to_rst ''&amp;lt;'') = ''<''"
  by code_simp

text \<open>
  C4, amended.  On text with no tag and no entity reference, converting twice gives the
  same as converting once.
\<close>

theorem html_to_rst_idempotent_plain:
  "\<not> has_tag x \<and> \<not> has_entity x \<longrightarrow> html_to_rst (html_to_rst x) = html_to_rst x"
proof
  assume a: "\<not> has_tag x \<and> \<not> has_entity x"
  let ?c = "re_sub m_nl3 x"
  let ?y = "strip ?c"
  have y: "html_to_rst x = ?y" using a by (simp add: html_to_rst_plain)
  obtain u v where uv: "?c = u @ ?y @ v" using strip_infix by blast
  have "\<not> has_tag ?c" using a has_tag_collapse by blast
  then have ty: "\<not> has_tag ?y" using has_tag_infix [of ?y u v] by (simp only: uv [symmetric]) blast
  have "\<not> has_entity ?c" using a entity_collapse by blast
  then have ey: "\<not> has_entity ?y" using entity_infix [of ?y u v] by (simp only: uv [symmetric]) blast
  have "\<not> has_sub [NL, NL, NL] ?c" using collapse_props by blast
  then have "\<not> has_sub [NL, NL, NL] ?y"
    using has_sub_infix [of "[NL, NL, NL]" ?y u v] by (simp only: uv [symmetric]) blast
  then have c: "re_sub m_nl3 ?y = ?y" by (rule collapse_id)
  have "html_to_rst ?y = strip (re_sub m_nl3 ?y)" using ty ey by (rule html_to_rst_plain)
  also have "\<dots> = ?y" by (simp only: c strip_strip)
  finally show "html_to_rst (html_to_rst x) = html_to_rst x" by (simp only: y)
qed

theorem html_to_rst_idempotent_plain_witness:
  "html_to_rst (html_to_rst ([NL] @ ''R&D: 1 > 0, a <> b, x < y'' @ [NL, NL, NL, NL] @ ''x &lt y  '')) =
     html_to_rst ([NL] @ ''R&D: 1 > 0, a <> b, x < y'' @ [NL, NL, NL, NL] @ ''x &lt y  '') \<and>
   html_to_rst ([NL] @ ''R&D: 1 > 0, a <> b, x < y'' @ [NL, NL, NL, NL] @ ''x &lt y  '') =
     ''R&D: 1 > 0, a <> b, x < y'' @ [NL, NL] @ ''x &lt y''"
proof -
  let ?x = "[NL] @ ''R&D: 1 > 0, a <> b, x < y'' @ [NL, NL, NL, NL] @ ''x &lt y  ''"
  have h: "\<not> has_tag ?x \<and> \<not> has_entity ?x" by code_simp
  have v: "html_to_rst ?x = ''R&D: 1 > 0, a <> b, x < y'' @ [NL, NL] @ ''x &lt y''" by code_simp
  from h html_to_rst_idempotent_plain [of ?x]
  have "html_to_rst (html_to_rst ?x) = html_to_rst ?x" by blast
  with v show ?thesis by blast
qed

end
